theory Spec2Isabelle
  imports Complex_Main "HOL-Library.Finite_Map"
begin

section \<open>Errors and assertions\<close>

text \<open>
  The exceptions the engine throws, and the two ways an execution can end without one:
  a failed \<^verbatim>\<open>assert\<close> (the process aborts) and an operation the C++ standard leaves
  undefined (erasing \<^verbatim>\<open>end()\<close>, \<^verbatim>\<open>back()\<close> of an empty vector, a null dereference).
  \<^verbatim>\<open>std::invalid_argument\<close> is the spec's NotFound, \<^verbatim>\<open>FormulaException\<close> its
  FormulaSyntax.
\<close>

datatype error =
    InvalidPositionException
  | FormulaException
  | CircularDependencyException
  | invalid_argument
  | assertion_failure
  | undefined_behaviour

text \<open>
  \<^verbatim>\<open>assert(c)\<close>: nothing when the build defines \<^verbatim>\<open>NDEBUG\<close> or \<open>c\<close> holds, an abort
  otherwise. The flag \<open>nd\<close> says whether \<^verbatim>\<open>NDEBUG\<close> is defined.
\<close>

definition assert_fails :: "bool \<Rightarrow> bool \<Rightarrow> bool" where
  "assert_fails nd c \<longleftrightarrow> \<not> nd \<and> \<not> c"

section \<open>IndexedStorage (design/sheet.h)\<close>

text \<open>
  The private members \<^verbatim>\<open>data_\<close> (an \<^verbatim>\<open>unordered_map\<close>) and \<^verbatim>\<open>indices_\<close> (a vector kept in
  ascending order) are written \<open>data_m\<close> and \<open>indices_m\<close>; \<^verbatim>\<open>Index\<close> is \<^verbatim>\<open>int\<close>.
\<close>

record 'a IndexedStorage =
  data_m :: "(int, 'a) fmap"
  indices_m :: "int list"

definition empty_storage :: "'a IndexedStorage" where
  "empty_storage = \<lparr>data_m = fmempty, indices_m = []\<rparr>"

text \<open>
  \<^verbatim>\<open>std::lower_bound(indices_.begin(), indices_.end(), index)\<close> as an offset from
  \<^verbatim>\<open>begin()\<close>: the first position whose element is not less than \<open>index\<close>.
\<close>

definition lower_bound :: "int list \<Rightarrow> int \<Rightarrow> nat" where
  "lower_bound xs i = length (takeWhile (\<lambda>x. x < i) xs)"

text \<open>
  \<^verbatim>\<open>operator[]\<close> (non-const): a missing index is inserted into \<open>indices_\<close> at its lower
  bound and \<^verbatim>\<open>data_[index]\<close> default-constructs its value (\<open>dflt\<close>). The result is the
  value referred to and the container afterwards.
\<close>

definition index_op ::
  "bool \<Rightarrow> 'a \<Rightarrow> 'a IndexedStorage \<Rightarrow> int \<Rightarrow> error + ('a \<times> 'a IndexedStorage)" where
  "index_op nd dflt st i =
     (case fmlookup (data_m st) i of
        None \<Rightarrow>
          (let k = lower_bound (indices_m st) i in
           if assert_fails nd (k = length (indices_m st) \<or> indices_m st ! k \<noteq> i)
           then Inl assertion_failure
           else Inr (dflt,
                  \<lparr>data_m = fmupd i dflt (data_m st),
                   indices_m = take k (indices_m st) @ i # drop k (indices_m st)\<rparr>))
      | Some v \<Rightarrow> Inr (v, st))"

text \<open>The const \<^verbatim>\<open>operator[]\<close> casts constness away and calls the one above.\<close>

definition index_op_const ::
  "bool \<Rightarrow> 'a \<Rightarrow> 'a IndexedStorage \<Rightarrow> int \<Rightarrow> error + ('a \<times> 'a IndexedStorage)" where
  "index_op_const nd dflt st i = index_op nd dflt st i"

text \<open>Assignment through the reference \<^verbatim>\<open>operator[]\<close> returned for index \<open>i\<close>.\<close>

definition assign_at :: "'a IndexedStorage \<Rightarrow> int \<Rightarrow> 'a \<Rightarrow> 'a IndexedStorage" where
  "assign_at st i v = st\<lparr>data_m := fmupd i v (data_m st)\<rparr>"

text \<open>\<^verbatim>\<open>At\<close>, non-const: throws when the index is missing; the container is not touched.\<close>

definition At :: "'a IndexedStorage \<Rightarrow> int \<Rightarrow> error + ('a \<times> 'a IndexedStorage)" where
  "At st i =
     (case fmlookup (data_m st) i of
        None \<Rightarrow> Inl invalid_argument
      | Some v \<Rightarrow> Inr (v, st))"

text \<open>
  \<^verbatim>\<open>At\<close>, const: the body is \<^verbatim>\<open>return const_cast<IndexedStorage&>(*this)[index];\<close>, the
  non-const \<^verbatim>\<open>operator[]\<close>.
\<close>

definition At_const ::
  "bool \<Rightarrow> 'a \<Rightarrow> 'a IndexedStorage \<Rightarrow> int \<Rightarrow> error + ('a \<times> 'a IndexedStorage)" where
  "At_const nd dflt st i = index_op nd dflt st i"

definition Empty :: "bool \<Rightarrow> 'a IndexedStorage \<Rightarrow> error + bool" where
  "Empty nd st =
     (if assert_fails nd
           ((fmdom (data_m st) = {||} \<and> indices_m st = []) \<or>
            (fmdom (data_m st) \<noteq> {||} \<and> indices_m st \<noteq> []))
      then Inl assertion_failure
      else Inr (fmdom (data_m st) = {||}))"

definition Size_op :: "bool \<Rightarrow> 'a IndexedStorage \<Rightarrow> error + int" where
  "Size_op nd st =
     (if assert_fails nd (fcard (fmdom (data_m st)) = length (indices_m st))
      then Inl assertion_failure
      else Inr (int (fcard (fmdom (data_m st)))))"

definition Count :: "'a IndexedStorage \<Rightarrow> int \<Rightarrow> int" where
  "Count st i = (case fmlookup (data_m st) i of None \<Rightarrow> 0 | Some v \<Rightarrow> 1)"

text \<open>
  \<^verbatim>\<open>Erase\<close>: throws when the index is missing; otherwise removes it from both sides.
  The element removed from \<open>indices_\<close> is the one at the lower bound; erasing \<^verbatim>\<open>end()\<close>
  (possible only when the first assertion is compiled out and fails) is undefined.
\<close>

definition Erase :: "bool \<Rightarrow> 'a IndexedStorage \<Rightarrow> int \<Rightarrow> error + 'a IndexedStorage" where
  "Erase nd st i =
     (case fmlookup (data_m st) i of
        None \<Rightarrow> Inl invalid_argument
      | Some v \<Rightarrow>
          (let k = lower_bound (indices_m st) i in
           if assert_fails nd (k \<noteq> length (indices_m st)) then Inl assertion_failure
           else if k = length (indices_m st) then Inl undefined_behaviour
           else
             (let st' = \<lparr>data_m = fmdrop i (data_m st),
                         indices_m = take k (indices_m st) @ drop (Suc k) (indices_m st)\<rparr>
              in if assert_fails nd (fcard (fmdom (data_m st')) = length (indices_m st'))
                 then Inl assertion_failure
                 else Inr st')))"

definition BackIndex :: "bool \<Rightarrow> 'a IndexedStorage \<Rightarrow> error + int" where
  "BackIndex nd st =
     (if assert_fails nd (indices_m st \<noteq> []) then Inl assertion_failure
      else if indices_m st = [] then Inl undefined_behaviour
      else Inr (last (indices_m st)))"

text \<open>
  Dereferencing the value iterator that stands at index \<open>i\<close> of \<open>indices_\<close>:
  \<^verbatim>\<open>data_.find(*indices_iter_)\<close>, asserted to be found.
\<close>

definition iter_deref :: "bool \<Rightarrow> 'a IndexedStorage \<Rightarrow> int \<Rightarrow> error + (int \<times> 'a)" where
  "iter_deref nd st i =
     (case fmlookup (data_m st) i of
        None \<Rightarrow> (if nd then Inl undefined_behaviour else Inl assertion_failure)
      | Some v \<Rightarrow> Inr (i, v))"

section \<open>Positions and sizes (common.h)\<close>

record Position =
  row :: int
  col :: int

record Size =
  rows :: int
  cols :: int

text \<open>
  The formula side of the engine. \<^verbatim>\<open>FormulaError::Category\<close> and the two value variants are
  as the headers declare them; the payload of a \<^verbatim>\<open>double\<close> is never computed with here, it
  is only stored and returned.
\<close>

datatype Category = Ref | Value | Div0

datatype FormulaValue = FNumber real | FError Category

datatype CellValue = VString string | VDouble real | VError Category

section \<open>Cells (spreadsheet/cell.h, cell.cpp)\<close>

text \<open>
  \<^verbatim>\<open>ValueImpl\<close> is \<^verbatim>\<open>std::variant<std::monostate, std::string, FormulaValueImpl>\<close>; the
  formula alternative owns the parsed formula, of the parser's type \<open>'f\<close>. The cache is
  \<^verbatim>\<open>std::variant<std::monostate, FormulaInterface::Value>\<close>, \<open>None\<close> for \<^verbatim>\<open>monostate\<close>.
  The members \<^verbatim>\<open>value_\<close> and \<^verbatim>\<open>cache_\<close> are written \<open>value_m\<close> and \<open>cache_m\<close>; the
  back reference \<^verbatim>\<open>sheet_\<close> is the sheet every function here takes as an argument.
\<close>

datatype 'f ValueImpl = monostate | Str string | FormulaValueImpl 'f

record 'f Cell =
  value_m :: "'f ValueImpl"
  cache_m :: "FormulaValue option"

text \<open>A cell as its constructor leaves it.\<close>

definition new_Cell :: "'f Cell" where
  "new_Cell = \<lparr>value_m = monostate, cache_m = None\<rparr>"

section \<open>SheetStorage and Sheet (design/sheet.h)\<close>

record 'a SheetStorage =
  rows_m :: "'a IndexedStorage IndexedStorage"

text \<open>
  \<^verbatim>\<open>CellPtr\<close> is a \<^verbatim>\<open>unique_ptr\<close>: \<open>None\<close> is the null pointer. An
  \<^verbatim>\<open>unordered_set<Position>\<close> is a list without repetitions, in the order the set iterates
  (which the standard leaves open); \<open>refs_from_m\<close> maps a position to the cells that refer
  to it.
\<close>

record 'f Sheet =
  cells_m :: "'f Cell option SheetStorage"
  refs_from_m :: "(Position, Position list) fmap"

definition new_Sheet :: "'f Sheet" where
  "new_Sheet = \<lparr>cells_m = \<lparr>rows_m = empty_storage\<rparr>, refs_from_m = fmempty\<rparr>"

section \<open>What the sources leave outside\<close>

text \<open>
  The parser (\<^verbatim>\<open>FormulaAST\<close>), the constants of \<^verbatim>\<open>common.h\<close> and the build flag are
  parameters of every function: \<open>ParseFormulaAST\<close> returns \<open>None\<close> where the parser throws,
  \<open>GetCells\<close> is \<^verbatim>\<open>ast_.GetCells()\<close>, \<open>PrintFormula\<close> the text \<^verbatim>\<open>ast_.PrintFormula\<close> writes,
  \<open>Execute\<close> is \<^verbatim>\<open>ast_.Execute(sheet)\<close> (\<open>Inl\<close> when it throws a \<^verbatim>\<open>FormulaError\<close>) together
  with the sheet as the call leaves it, \<open>show_double\<close> is what \<^verbatim>\<open>ostream << double\<close> writes.
\<close>

record 'f env =
  MAX_ROWS :: int
  MAX_COLS :: int
  NDEBUG :: bool
  ParseFormulaAST :: "string \<Rightarrow> 'f option"
  GetCells :: "'f \<Rightarrow> Position list"
  PrintFormula :: "'f \<Rightarrow> string"
  Execute :: "'f \<Rightarrow> 'f Sheet \<Rightarrow> (Category + real) \<times> 'f Sheet"
  show_double :: "real \<Rightarrow> string"

text \<open>
  Modelled from the spec: \<^verbatim>\<open>Position::IsValid\<close> of \<^verbatim>\<open>common.h\<close>, which is not among the
  sources: row and column within \<open>[0, MAX)\<close>.
\<close>

definition IsValid :: "'f env \<Rightarrow> Position \<Rightarrow> bool" where
  "IsValid env pos \<longleftrightarrow>
     0 \<le> row pos \<and> row pos < MAX_ROWS env \<and> 0 \<le> col pos \<and> col pos < MAX_COLS env"

text \<open>
  Modelled from the spec: the constants \<^verbatim>\<open>FORMULA_SIGN\<close> and \<^verbatim>\<open>ESCAPE_SIGN\<close> of
  \<^verbatim>\<open>common.h\<close>.
\<close>

definition FORMULA_SIGN :: char where
  "FORMULA_SIGN = CHR ''=''"

definition ESCAPE_SIGN :: char where
  "ESCAPE_SIGN = CHR 0x27"

subsection \<open>Formula (spreadsheet/formula.cpp)\<close>

text \<open>\<^verbatim>\<open>ParseFormula\<close> rethrows whatever the parser throws as a \<^verbatim>\<open>FormulaException\<close>.\<close>

definition ParseFormula :: "'f env \<Rightarrow> string \<Rightarrow> error + 'f" where
  "ParseFormula env expression =
     (case ParseFormulaAST env expression of
        None \<Rightarrow> Inl FormulaException
      | Some f \<Rightarrow> Inr f)"

text \<open>\<^verbatim>\<open>Formula::GetReferencedCells\<close>: \<^verbatim>\<open>std::unique_copy\<close> drops adjacent repetitions.\<close>

definition Formula_GetReferencedCells :: "'f env \<Rightarrow> 'f \<Rightarrow> Position list" where
  "Formula_GetReferencedCells env f = remdups_adj (GetCells env f)"

definition Formula_GetExpression :: "'f env \<Rightarrow> 'f \<Rightarrow> string" where
  "Formula_GetExpression env f = PrintFormula env f"

subsection \<open>Cell (spreadsheet/cell.cpp)\<close>

definition Cell_Clear :: "'f Cell \<Rightarrow> 'f Cell" where
  "Cell_Clear c = c\<lparr>value_m := monostate, cache_m := None\<rparr>"

definition Cell_Set :: "'f env \<Rightarrow> 'f Cell \<Rightarrow> string \<Rightarrow> error + 'f Cell" where
  "Cell_Set env c text =
     (if text = [] then Inr (Cell_Clear c)
      else if length text > 1 \<and> hd text = FORMULA_SIGN then
        (case ParseFormula env (tl text) of
           Inl e \<Rightarrow> Inl FormulaException
         | Inr f \<Rightarrow> Inr (c\<lparr>value_m := FormulaValueImpl f\<rparr>))
      else Inr (c\<lparr>value_m := Str text\<rparr>))"

definition Cell_GetText :: "'f env \<Rightarrow> 'f Cell \<Rightarrow> string" where
  "Cell_GetText env c =
     (case value_m c of
        monostate \<Rightarrow> []
      | Str str \<Rightarrow> str
      | FormulaValueImpl f \<Rightarrow> FORMULA_SIGN # Formula_GetExpression env f)"

definition Cell_GetReferencedCells :: "'f env \<Rightarrow> 'f Cell \<Rightarrow> Position list" where
  "Cell_GetReferencedCells env c =
     (case value_m c of
        FormulaValueImpl f \<Rightarrow> Formula_GetReferencedCells env f
      | _ \<Rightarrow> [])"

definition Cell_InvalidateCache :: "'f Cell \<Rightarrow> 'f Cell" where
  "Cell_InvalidateCache c = c\<lparr>cache_m := None\<rparr>"

subsection \<open>unordered_set<Position>\<close>

definition us_insert :: "'a \<Rightarrow> 'a list \<Rightarrow> 'a list" where
  "us_insert x xs = (if x \<in> set xs then xs else xs @ [x])"

text \<open>Construction from a range, and \<^verbatim>\<open>insert(first, last)\<close> into an empty set.\<close>

definition us_of_vector :: "'a list \<Rightarrow> 'a list" where
  "us_of_vector v = fold us_insert v []"

definition us_erase :: "'a \<Rightarrow> 'a list \<Rightarrow> 'a list" where
  "us_erase x xs = removeAll x xs"

subsection \<open>SheetStorage\<close>

text \<open>
  \<^verbatim>\<open>Get\<close> is const and returns a pointer to the stored value or null. Both
  \<^verbatim>\<open>operator[]\<close> calls follow a \<^verbatim>\<open>Count\<close> that found the index, so neither inserts and the
  container they return is the one they were given.
\<close>

definition Get :: "'f env \<Rightarrow> 'a \<Rightarrow> 'a SheetStorage \<Rightarrow> Position \<Rightarrow> error + 'a option" where
  "Get env dflt st pos =
     (if \<not> IsValid env pos then Inl InvalidPositionException
      else if Count (rows_m st) (row pos) = 0 then Inr None
      else
        (case index_op_const (NDEBUG env) empty_storage (rows_m st) (row pos) of
           Inl e \<Rightarrow> Inl e
         | Inr (cells_row, rs) \<Rightarrow>
             if Count cells_row (col pos) = 0 then Inr None
             else
               (case index_op_const (NDEBUG env) dflt cells_row (col pos) of
                  Inl e \<Rightarrow> Inl e
                | Inr (v, cr) \<Rightarrow> Inr (Some v))))"

text \<open>\<^verbatim>\<open>Set\<close>: \<^verbatim>\<open>rows_[pos.row][pos.col] = data\<close> after the validity check.\<close>

definition Set_op ::
  "'f env \<Rightarrow> 'a \<Rightarrow> 'a SheetStorage \<Rightarrow> Position \<Rightarrow> 'a \<Rightarrow> error + 'a SheetStorage" where
  "Set_op env dflt st pos v =
     (if \<not> IsValid env pos then Inl InvalidPositionException
      else
        (case index_op (NDEBUG env) empty_storage (rows_m st) (row pos) of
           Inl e \<Rightarrow> Inl e
         | Inr (r, rs) \<Rightarrow>
             (case index_op (NDEBUG env) dflt r (col pos) of
                Inl e \<Rightarrow> Inl e
              | Inr (x, r') \<Rightarrow>
                  Inr \<lparr>rows_m = assign_at rs (row pos) (assign_at r' (col pos) v)\<rparr>)))"

text \<open>
  \<^verbatim>\<open>Clear(pos)\<close>: erases the column entry and, when the row is then empty, the row. The
  local \<^verbatim>\<open>row\<close> is a reference into \<^verbatim>\<open>rows_\<close>, so the erased row is written back.
\<close>

definition Clear_op :: "'f env \<Rightarrow> 'a SheetStorage \<Rightarrow> Position \<Rightarrow> error + 'a SheetStorage" where
  "Clear_op env st pos =
     (if \<not> IsValid env pos then Inl InvalidPositionException
      else if Count (rows_m st) (row pos) > 0 then
        (case index_op (NDEBUG env) empty_storage (rows_m st) (row pos) of
           Inl e \<Rightarrow> Inl e
         | Inr (r, rs) \<Rightarrow>
             if Count r (col pos) > 0 then
               (case Erase (NDEBUG env) r (col pos) of
                  Inl e \<Rightarrow> Inl e
                | Inr r' \<Rightarrow>
                    (case Empty (NDEBUG env) r' of
                       Inl e \<Rightarrow> Inl e
                     | Inr True \<Rightarrow>
                         (case Erase (NDEBUG env) (assign_at rs (row pos) r') (row pos) of
                            Inl e \<Rightarrow> Inl e
                          | Inr rs' \<Rightarrow> Inr \<lparr>rows_m = rs'\<rparr>)
                     | Inr False \<Rightarrow> Inr \<lparr>rows_m = assign_at rs (row pos) r'\<rparr>))
             else Inr \<lparr>rows_m = rs\<rparr>)
      else Inr st)"

text \<open>
  \<^verbatim>\<open>GetPrintableSize\<close>. The loop runs over the rows in the order of \<open>indices_\<close>, each
  reached by dereferencing the value iterator. \<^verbatim>\<open>Size\<close> starts as \<open>{0, 0}\<close> (modelled from
  the spec: the struct is declared in \<^verbatim>\<open>common.h\<close>). Indices of stored cells are valid
  positions, below \<^verbatim>\<open>MAX_ROWS\<close> and \<^verbatim>\<open>MAX_COLS\<close>, so \<open>+ 1\<close> does not leave \<^verbatim>\<open>int\<close>.
\<close>

fun GetPrintableSize_loop ::
  "bool \<Rightarrow> 'a IndexedStorage IndexedStorage \<Rightarrow> int list \<Rightarrow> int \<Rightarrow> error + int" where
  "GetPrintableSize_loop nd rs [] size_cols = Inr size_cols"
| "GetPrintableSize_loop nd rs (i # is) size_cols =
     (case iter_deref nd rs i of
        Inl e \<Rightarrow> Inl e
      | Inr (k, r) \<Rightarrow>
          (case Empty nd r of
             Inl e \<Rightarrow> Inl e
           | Inr True \<Rightarrow> GetPrintableSize_loop nd rs is size_cols
           | Inr False \<Rightarrow>
               (case BackIndex nd r of
                  Inl e \<Rightarrow> Inl e
                | Inr b \<Rightarrow> GetPrintableSize_loop nd rs is (max size_cols (b + 1)))))"

definition GetPrintableSize :: "bool \<Rightarrow> 'a SheetStorage \<Rightarrow> error + Size" where
  "GetPrintableSize nd st =
     (case Empty nd (rows_m st) of
        Inl e \<Rightarrow> Inl e
      | Inr True \<Rightarrow> Inr \<lparr>rows = 0, cols = 0\<rparr>
      | Inr False \<Rightarrow>
          (case BackIndex nd (rows_m st) of
             Inl e \<Rightarrow> Inl e
           | Inr b \<Rightarrow>
               (case GetPrintableSize_loop nd (rows_m st) (indices_m (rows_m st)) 0 of
                  Inl e \<Rightarrow> Inl e
                | Inr c \<Rightarrow> Inr \<lparr>rows = b + 1, cols = c\<rparr>)))"

subsection \<open>Sheet (spreadsheet/sheet.cpp)\<close>

definition GetCellImpl :: "'f env \<Rightarrow> 'f Sheet \<Rightarrow> Position \<Rightarrow> error + 'f Cell option" where
  "GetCellImpl env s pos =
     (case Get env None (cells_m s) pos of
        Inl e \<Rightarrow> Inl e
      | Inr None \<Rightarrow> Inr None
      | Inr (Some cell_ptr) \<Rightarrow> Inr cell_ptr)"

definition GetCell :: "'f env \<Rightarrow> 'f Sheet \<Rightarrow> Position \<Rightarrow> error + 'f Cell option" where
  "GetCell env s pos = GetCellImpl env s pos"

text \<open>
  The set \<^verbatim>\<open>refs_from_[k]\<close> as a list, empty when \<open>k\<close> is no key; and the test
  \<^verbatim>\<open>refs_from_.count(k) > 0 && refs_from_.at(k).count(p) > 0\<close> of the assertions.
\<close>

definition refs_to :: "(Position, Position list) fmap \<Rightarrow> Position \<Rightarrow> Position list" where
  "refs_to g k = (case fmlookup g k of None \<Rightarrow> [] | Some ps \<Rightarrow> ps)"

definition has_ref :: "(Position, Position list) fmap \<Rightarrow> Position \<Rightarrow> Position \<Rightarrow> bool" where
  "has_ref g k p = (case fmlookup g k of None \<Rightarrow> False | Some ps \<Rightarrow> p \<in> set ps)"

text \<open>
  \<^verbatim>\<open>IsCircularReference\<close>. The vector \<^verbatim>\<open>queue\<close> is a list whose last element is
  \<^verbatim>\<open>back()\<close>; \<^verbatim>\<open>discovered\<close> is only inserted into and asked for membership.
\<close>

function IsCircularReference_loop ::
  "(Position, Position list) fmap \<Rightarrow> Position \<Rightarrow> Position list \<Rightarrow> Position list \<Rightarrow>
   Position set \<Rightarrow> bool" where
  "IsCircularReference_loop g pos refs_del queue discovered =
     (if queue = [] then False
      else
        (let v = last queue in
         if v \<in> discovered then True
         else IsCircularReference_loop g pos refs_del
                (butlast queue @
                   filter (\<lambda>refs_to_v. \<not> (refs_to_v = pos \<and> v \<in> set refs_del)) (refs_to g v))
                (insert v discovered)))"
  by pat_completeness auto

definition graph_vertices :: "(Position, Position list) fmap \<Rightarrow> Position set" where
  "graph_vertices g = (\<Union>ps \<in> fmran' g. set ps)"

lemma finite_graph_vertices: "finite (graph_vertices g)"
  by (simp add: graph_vertices_def fmran'_alt_def)

lemma refs_to_vertices: "set (refs_to g v) \<subseteq> graph_vertices g"
proof (cases "fmlookup g v")
  case None
  then show ?thesis by (simp add: refs_to_def)
next
  case (Some ps)
  then have "ps \<in> fmran' g" by (rule fmran'I)
  then show ?thesis using Some by (auto simp: refs_to_def graph_vertices_def)
qed

termination IsCircularReference_loop
proof (relation "measure (\<lambda>(g, pos, refs_del, queue, discovered).
          card ((graph_vertices g \<union> set queue) - discovered))")
  show "wf (measure (\<lambda>(g, pos, refs_del, queue, discovered).
          card ((graph_vertices g \<union> set queue) - discovered)))"
    by simp
next
  fix g :: "(Position, Position list) fmap" and pos :: Position
    and refs_del queue :: "Position list" and discovered :: "Position set" and v
  assume q: "queue \<noteq> []" and v: "v = last queue" and nd: "v \<notin> discovered"
  let ?N = "filter (\<lambda>refs_to_v. \<not> (refs_to_v = pos \<and> v \<in> set refs_del)) (refs_to g v)"
  have fin: "finite ((graph_vertices g \<union> set queue) - discovered)"
    by (simp add: finite_graph_vertices)
  have vin: "v \<in> set queue" using q v by simp
  have "set (butlast queue @ ?N) \<subseteq> graph_vertices g \<union> set queue"
    using refs_to_vertices [of g v] by (auto dest: in_set_butlastD)
  then have "(graph_vertices g \<union> set (butlast queue @ ?N)) - insert v discovered
        \<subset> (graph_vertices g \<union> set queue) - discovered"
    using vin nd by blast
  then have "card ((graph_vertices g \<union> set (butlast queue @ ?N)) - insert v discovered)
        < card ((graph_vertices g \<union> set queue) - discovered)"
    using fin by (rule psubset_card_mono [rotated])
  then show "((g, pos, refs_del, butlast queue @ ?N, insert v discovered),
              (g, pos, refs_del, queue, discovered))
        \<in> measure (\<lambda>(g, pos, refs_del, queue, discovered).
            card ((graph_vertices g \<union> set queue) - discovered))"
    by simp
qed

declare IsCircularReference_loop.simps [simp del]

definition IsCircularReference ::
  "'f env \<Rightarrow> 'f Sheet \<Rightarrow> Position \<Rightarrow> Position \<Rightarrow> Position list \<Rightarrow> error + bool" where
  "IsCircularReference env s pos ref_add refs_del =
     (if assert_fails (NDEBUG env) (pos \<notin> set refs_del) then Inl assertion_failure
      else if assert_fails (NDEBUG env) (ref_add \<notin> set refs_del) then Inl assertion_failure
      else if assert_fails (NDEBUG env) (\<not> has_ref (refs_from_m s) ref_add pos)
      then Inl assertion_failure
      else Inr (IsCircularReference_loop (refs_from_m s) pos refs_del [pos, ref_add] {}))"

text \<open>
  \<^verbatim>\<open>UpdateRefs\<close>, loop by loop. The first two loops build \<^verbatim>\<open>refs_add\<close> and \<^verbatim>\<open>refs_del\<close>
  and check their assertions against \<^verbatim>\<open>refs_from_\<close>.
\<close>

fun refs_add_loop ::
  "'f env \<Rightarrow> 'f Sheet \<Rightarrow> Position \<Rightarrow> Position list \<Rightarrow> Position list \<Rightarrow> Position list \<Rightarrow>
   error + Position list" where
  "refs_add_loop env s pos old_refs [] refs_add = Inr refs_add"
| "refs_add_loop env s pos old_refs (new_ref # rest) refs_add =
     (if new_ref \<notin> set old_refs then
        (if assert_fails (NDEBUG env) (\<not> has_ref (refs_from_m s) new_ref pos)
         then Inl assertion_failure
         else refs_add_loop env s pos old_refs rest (us_insert new_ref refs_add))
      else
        (if assert_fails (NDEBUG env) (has_ref (refs_from_m s) new_ref pos)
         then Inl assertion_failure
         else refs_add_loop env s pos old_refs rest refs_add))"

fun refs_del_loop ::
  "'f env \<Rightarrow> 'f Sheet \<Rightarrow> Position \<Rightarrow> Position list \<Rightarrow> Position list \<Rightarrow> Position list \<Rightarrow>
   error + Position list" where
  "refs_del_loop env s pos new_refs [] refs_del = Inr refs_del"
| "refs_del_loop env s pos new_refs (old_ref # rest) refs_del =
     (if old_ref \<notin> set new_refs then
        (if assert_fails (NDEBUG env) (has_ref (refs_from_m s) old_ref pos)
         then Inl assertion_failure
         else refs_del_loop env s pos new_refs rest (us_insert old_ref refs_del))
      else
        (if assert_fails (NDEBUG env) (\<not> has_ref (refs_from_m s) old_ref pos)
         then Inl assertion_failure
         else refs_del_loop env s pos new_refs rest refs_del))"

fun cycle_check_loop ::
  "'f env \<Rightarrow> 'f Sheet \<Rightarrow> Position \<Rightarrow> Position list \<Rightarrow> Position list \<Rightarrow> error option" where
  "cycle_check_loop env s pos refs_del [] = None"
| "cycle_check_loop env s pos refs_del (ref_add # rest) =
     (case IsCircularReference env s pos ref_add refs_del of
        Inl e \<Rightarrow> Some e
      | Inr True \<Rightarrow> Some CircularDependencyException
      | Inr False \<Rightarrow> cycle_check_loop env s pos refs_del rest)"

fun add_refs_loop ::
  "(Position, Position list) fmap \<Rightarrow> Position \<Rightarrow> Position list \<Rightarrow>
   (Position, Position list) fmap" where
  "add_refs_loop g pos [] = g"
| "add_refs_loop g pos (ref_add # rest) =
     add_refs_loop (fmupd ref_add (us_insert pos (refs_to g ref_add)) g) pos rest"

text \<open>
  The removal loop. \<^verbatim>\<open>it->second\<close> with \<^verbatim>\<open>it == end()\<close> (possible only with the assertion
  compiled out) is undefined.
\<close>

fun remove_refs_loop ::
  "bool \<Rightarrow> (Position, Position list) fmap \<Rightarrow> Position \<Rightarrow> Position list \<Rightarrow>
   error + (Position, Position list) fmap" where
  "remove_refs_loop nd g pos [] = Inr g"
| "remove_refs_loop nd g pos (ref_del # rest) =
     (case fmlookup g ref_del of
        None \<Rightarrow> (if nd then Inl undefined_behaviour else Inl assertion_failure)
      | Some ps \<Rightarrow>
          if assert_fails nd (pos \<in> set ps) then Inl assertion_failure
          else
            (let ps' = us_erase pos ps in
             if length ps' = 0 then remove_refs_loop nd (fmdrop ref_del g) pos rest
             else remove_refs_loop nd (fmupd ref_del ps' g) pos rest))"

definition UpdateRefs ::
  "'f env \<Rightarrow> 'f Sheet \<Rightarrow> Position \<Rightarrow> Position list \<Rightarrow> Position list \<Rightarrow> error + 'f Sheet" where
  "UpdateRefs env s pos old_refs new_refs =
     (case refs_add_loop env s pos old_refs new_refs [] of
        Inl e \<Rightarrow> Inl e
      | Inr refs_add \<Rightarrow>
          (case refs_del_loop env s pos new_refs old_refs [] of
             Inl e \<Rightarrow> Inl e
           | Inr refs_del \<Rightarrow>
               (case cycle_check_loop env s pos refs_del refs_add of
                  Some e \<Rightarrow> Inl e
                | None \<Rightarrow>
                    (case remove_refs_loop (NDEBUG env)
                            (add_refs_loop (refs_from_m s) pos refs_add) pos refs_del of
                       Inl e \<Rightarrow> Inl e
                     | Inr g \<Rightarrow> Inr (s\<lparr>refs_from_m := g\<rparr>)))))"

text \<open>
  \<^verbatim>\<open>cell->InvalidateCache()\<close> and the cache store of \<^verbatim>\<open>Cell::GetValue\<close> write to the cell
  object a stored pointer refers to: \<open>put_cell s pos c\<close> is the sheet in which the object
  stored at \<open>pos\<close> has become \<open>c\<close>. The containers keep their keys.
\<close>

definition put_cell :: "'f Sheet \<Rightarrow> Position \<Rightarrow> 'f Cell \<Rightarrow> 'f Sheet" where
  "put_cell s pos c =
     (case fmlookup (data_m (rows_m (cells_m s))) (row pos) of
        None \<Rightarrow> s
      | Some r \<Rightarrow>
          s\<lparr>cells_m :=
              \<lparr>rows_m = assign_at (rows_m (cells_m s)) (row pos) (assign_at r (col pos) (Some c))\<rparr>\<rparr>)"

lemma refs_from_put_cell [simp]: "refs_from_m (put_cell s pos c) = refs_from_m s"
  by (simp add: put_cell_def split: option.splits)

text \<open>
  \<^verbatim>\<open>Sheet::InvalidateCache\<close>: the popped vertex is invalidated and marked discovered
  without a test; a neighbour is pushed when it is not discovered at that moment.
\<close>

function InvalidateCache_loop ::
  "'f env \<Rightarrow> 'f Sheet \<Rightarrow> Position list \<Rightarrow> Position set \<Rightarrow> error option \<times> 'f Sheet" where
  "InvalidateCache_loop env s queue discovered =
     (if queue = [] then (None, s)
      else
        (let v = last queue in
         case GetCellImpl env s v of
           Inl e \<Rightarrow> (Some e, s)
         | Inr cell \<Rightarrow>
             InvalidateCache_loop env
               (case cell of None \<Rightarrow> s | Some c \<Rightarrow> put_cell s v (Cell_InvalidateCache c))
               (butlast queue @
                  filter (\<lambda>refs_to_v. refs_to_v \<notin> insert v discovered)
                    (refs_to (refs_from_m s) v))
               (insert v discovered)))"
  by pat_completeness auto

definition walk_measure ::
  "(Position, Position list) fmap \<Rightarrow> Position list \<Rightarrow> Position set \<Rightarrow> nat" where
  "walk_measure g queue discovered =
     card ((graph_vertices g \<union> set queue) - discovered -
             (if queue = [] then {} else {last queue}))"

lemma walk_measure_pop:
  assumes "queue \<noteq> []"
  shows "walk_measure g (butlast queue) (insert (last queue) discovered)
           \<le> walk_measure g queue discovered"
proof -
  have "(graph_vertices g \<union> set (butlast queue)) - insert (last queue) discovered -
          (if butlast queue = [] then {} else {last (butlast queue)})
        \<subseteq> (graph_vertices g \<union> set queue) - discovered - {last queue}"
    by (auto dest: in_set_butlastD)
  moreover have "finite ((graph_vertices g \<union> set queue) - discovered - {last queue})"
    by (simp add: finite_graph_vertices)
  ultimately show ?thesis
    using assms by (simp add: walk_measure_def card_mono)
qed

lemma walk_measure_push:
  assumes "queue \<noteq> []" and "N \<noteq> []" and "set N \<subseteq> graph_vertices g"
    and "set N \<inter> insert (last queue) discovered = {}"
  shows "walk_measure g (butlast queue @ N) (insert (last queue) discovered)
           < walk_measure g queue discovered"
proof -
  let ?d = "insert (last queue) discovered"
  have n: "last N \<in> set N" using assms(2) by simp
  then have "last N \<in> graph_vertices g" and "last N \<notin> ?d" using assms(3,4) by auto
  then have "(graph_vertices g \<union> set (butlast queue @ N)) - ?d - {last N}
        \<subset> (graph_vertices g \<union> set queue) - discovered - {last queue}"
    using assms(3) by (auto dest: in_set_butlastD)
  moreover have "finite ((graph_vertices g \<union> set queue) - discovered - {last queue})"
    by (simp add: finite_graph_vertices)
  ultimately have "card ((graph_vertices g \<union> set (butlast queue @ N)) - ?d - {last N})
        < card ((graph_vertices g \<union> set queue) - discovered - {last queue})"
    by (rule psubset_card_mono [rotated])
  then show ?thesis using assms(1,2) by (simp add: walk_measure_def)
qed

termination InvalidateCache_loop
proof (relation "inv_image (less_than <*lex*> less_than)
          (\<lambda>(env, s, queue, discovered).
             (walk_measure (refs_from_m s) queue discovered, length queue))")
  show "wf (inv_image (less_than <*lex*> less_than)
          (\<lambda>(env :: 'a env, s, queue, discovered).
             (walk_measure (refs_from_m s) queue discovered, length queue)))"
    by (rule wf_inv_image) (rule wf_lex_prod; rule wf_less_than)
next
  fix env :: "'a env" and s :: "'a Sheet" and queue :: "Position list"
    and discovered :: "Position set" and v cell
  assume q: "queue \<noteq> []" and v: "v = last queue"
  let ?s' = "case cell of None \<Rightarrow> s | Some c \<Rightarrow> put_cell s v (Cell_InvalidateCache c)"
  let ?N = "filter (\<lambda>refs_to_v. refs_to_v \<notin> insert v discovered) (refs_to (refs_from_m s) v)"
  have g: "refs_from_m ?s' = refs_from_m s" by (simp split: option.splits)
  have "walk_measure (refs_from_m s) (butlast queue @ ?N) (insert v discovered)
          < walk_measure (refs_from_m s) queue discovered
        \<or> (walk_measure (refs_from_m s) (butlast queue @ ?N) (insert v discovered)
             \<le> walk_measure (refs_from_m s) queue discovered
           \<and> length (butlast queue @ ?N) < length queue)"
  proof (cases "?N = []")
    case True
    then show ?thesis using q v walk_measure_pop [of queue "refs_from_m s" discovered]
      by simp
  next
    case False
    have "set ?N \<subseteq> graph_vertices (refs_from_m s)"
      using refs_to_vertices [of "refs_from_m s" v] by auto
    moreover have "set ?N \<inter> insert (last queue) discovered = {}" using v by auto
    ultimately show ?thesis
      using q v False walk_measure_push [of queue ?N "refs_from_m s" discovered] by simp
  qed
  then show "((env, ?s', butlast queue @ ?N, insert v discovered), (env, s, queue, discovered))
        \<in> inv_image (less_than <*lex*> less_than)
            (\<lambda>(env, s, queue, discovered).
               (walk_measure (refs_from_m s) queue discovered, length queue))"
    using g by auto
qed

declare InvalidateCache_loop.simps [simp del]

definition InvalidateCache :: "'f env \<Rightarrow> 'f Sheet \<Rightarrow> Position \<Rightarrow> error option \<times> 'f Sheet" where
  "InvalidateCache env s pos = InvalidateCache_loop env s [pos] {}"

text \<open>
  A \<^verbatim>\<open>for\<close> loop over a list whose body may throw: the loop stops at the first error
  with the state reached.
\<close>

fun for_each ::
  "('a \<Rightarrow> 's \<Rightarrow> error option \<times> 's) \<Rightarrow> 'a list \<Rightarrow> 's \<Rightarrow> error option \<times> 's" where
  "for_each body [] s = (None, s)"
| "for_each body (x # xs) s =
     (case body x s of
        (Some e, s') \<Rightarrow> (Some e, s')
      | (None, s') \<Rightarrow> for_each body xs s')"

lemma for_each_cong [fundef_cong]:
  "xs = ys \<Longrightarrow> s = t \<Longrightarrow> (\<And>x u. x \<in> set ys \<Longrightarrow> f x u = g x u) \<Longrightarrow>
   for_each f xs s = for_each g ys t"
proof (induction ys arbitrary: xs s t)
  case Nil
  then show ?case by simp
next
  case (Cons y ys)
  then show ?case by (auto split: prod.splits option.splits)
qed

text \<open>
  \<^verbatim>\<open>Sheet::SetCell\<close>. The result is the exception thrown, if any, and the sheet as the
  call leaves it. After an abort (\<open>assertion_failure\<close>, \<open>undefined_behaviour\<close>) there is no
  sheet to speak of; the one returned is the last the call reached.
\<close>

function SetCell ::
  "'f env \<Rightarrow> 'f Sheet \<Rightarrow> Position \<Rightarrow> string \<Rightarrow> error option \<times> 'f Sheet" where
  "SetCell env s pos text =
     (case Cell_Set env new_Cell text of
        Inl e \<Rightarrow> (Some e, s)
      | Inr cell \<Rightarrow>
          (case GetCell env s pos of
             Inl e \<Rightarrow> (Some e, s)
           | Inr old_cell \<Rightarrow>
               (let old_refs = (case old_cell of
                                  None \<Rightarrow> []
                                | Some c \<Rightarrow> us_of_vector (Cell_GetReferencedCells env c));
                    new_refs = us_of_vector (Cell_GetReferencedCells env cell)
                in case UpdateRefs env s pos old_refs new_refs of
                     Inl e \<Rightarrow> (Some e, s)
                   | Inr s1 \<Rightarrow>
                       (case for_each
                               (\<lambda>ref u. case GetCell env u ref of
                                           Inl e \<Rightarrow> (Some e, u)
                                         | Inr None \<Rightarrow> SetCell env u ref []
                                         | Inr (Some c) \<Rightarrow> (None, u))
                               new_refs s1 of
                          (Some e, s2) \<Rightarrow> (Some e, s2)
                        | (None, s2) \<Rightarrow>
                            (case Set_op env None (cells_m s2) pos (Some cell) of
                               Inl e \<Rightarrow> (Some e, s2)
                             | Inr cells' \<Rightarrow>
                                 InvalidateCache env (s2\<lparr>cells_m := cells'\<rparr>) pos)))))"
  by pat_completeness auto


lemma set_us_insert [simp]: "set (us_insert x xs) = insert x (set xs)"
  by (auto simp: us_insert_def)

lemma set_fold_us_insert: "set (fold us_insert v acc) = set v \<union> set acc"
  by (induction v arbitrary: acc) auto

lemma set_us_of_vector [simp]: "set (us_of_vector v) = set v"
  by (simp add: us_of_vector_def set_fold_us_insert)

lemma Cell_Set_empty [simp]: "Cell_Set env c [] = Inr (Cell_Clear c)"
  by (simp add: Cell_Set_def)

lemma Cell_Clear_refs [simp]: "Cell_GetReferencedCells env (Cell_Clear c) = []"
  by (simp add: Cell_GetReferencedCells_def Cell_Clear_def)

termination SetCell
proof (relation "measure (\<lambda>(env, s, pos, t). if t = [] then 0 else 1)")
  show "wf (measure (\<lambda>(env :: 'a env, s :: 'a Sheet, pos :: Position, t :: string).
          if t = [] then 0 else (1::nat)))"
    by simp
next
  fix env :: "'a env" and s :: "'a Sheet" and pos :: Position and t :: string
    and cell and new_refs :: "Position list" and ref u
  assume c: "Cell_Set env new_Cell t = Inr cell"
    and n: "new_refs = us_of_vector (Cell_GetReferencedCells env cell)"
    and r: "ref \<in> set new_refs"
  have "t \<noteq> []"
  proof
    assume "t = []"
    with c have "cell = Cell_Clear new_Cell" by simp
    with n r show False by simp
  qed
  then show "((env, u, ref, []), (env, s, pos, t))
        \<in> measure (\<lambda>(env, s, pos, t). if t = [] then 0 else 1)"
    by simp
qed

declare SetCell.simps [simp del]

definition ClearCell :: "'f env \<Rightarrow> 'f Sheet \<Rightarrow> Position \<Rightarrow> error option \<times> 'f Sheet" where
  "ClearCell env s pos =
     (case GetCellImpl env s pos of
        Inl e \<Rightarrow> (Some e, s)
      | Inr None \<Rightarrow> (None, s)
      | Inr (Some cell) \<Rightarrow>
          (case UpdateRefs env s pos (us_of_vector (Cell_GetReferencedCells env cell)) [] of
             Inl e \<Rightarrow> (Some e, s)
           | Inr s1 \<Rightarrow>
               (case Clear_op env (cells_m s1) pos of
                  Inl e \<Rightarrow> (Some e, s1)
                | Inr cells' \<Rightarrow> (None, s1\<lparr>cells_m := cells'\<rparr>))))"

definition Sheet_GetPrintableSize :: "'f env \<Rightarrow> 'f Sheet \<Rightarrow> error + Size" where
  "Sheet_GetPrintableSize env s = GetPrintableSize (NDEBUG env) (cells_m s)"

subsection \<open>Reading values and printing\<close>

text \<open>The cell object stored at a position, if there is one (no validity check).\<close>

definition lookup_cell :: "'f Sheet \<Rightarrow> Position \<Rightarrow> 'f Cell option" where
  "lookup_cell s pos =
     (case fmlookup (data_m (rows_m (cells_m s))) (row pos) of
        None \<Rightarrow> None
      | Some r \<Rightarrow> (case fmlookup (data_m r) (col pos) of None \<Rightarrow> None | Some cell_ptr \<Rightarrow> cell_ptr))"

text \<open>
  \<^verbatim>\<open>Execute\<close> receives a \<^verbatim>\<open>const SheetInterface&\<close>: through it only const member functions
  are reachable, and the only member they may write is the \<^verbatim>\<open>mutable\<close> cache of a cell.
  Of the sheet \<open>s'\<close> the parameter returns, \<open>const_effect s s'\<close> therefore takes the caches
  and nothing else.
\<close>

definition const_effect :: "'f Sheet \<Rightarrow> 'f Sheet \<Rightarrow> 'f Sheet" where
  "const_effect s s' =
     s\<lparr>cells_m :=
         \<lparr>rows_m =
            (rows_m (cells_m s))
              \<lparr>data_m :=
                 fmmap_keys
                   (\<lambda>i r. r\<lparr>data_m :=
                             fmmap_keys
                               (\<lambda>j cell_ptr.
                                  case cell_ptr of
                                    None \<Rightarrow> None
                                  | Some c \<Rightarrow>
                                      (case lookup_cell s' \<lparr>row = i, col = j\<rparr> of
                                         None \<Rightarrow> Some c
                                       | Some c' \<Rightarrow> Some (c\<lparr>cache_m := cache_m c'\<rparr>)))
                               (data_m r)\<rparr>)
                   (data_m (rows_m (cells_m s)))\<rparr>\<rparr>\<rparr>"

text \<open>\<^verbatim>\<open>Formula::Evaluate\<close>: a \<^verbatim>\<open>FormulaError\<close> thrown by the tree is the value returned.\<close>

definition Formula_Evaluate :: "'f env \<Rightarrow> 'f \<Rightarrow> 'f Sheet \<Rightarrow> FormulaValue \<times> 'f Sheet" where
  "Formula_Evaluate env f s =
     (case Execute env f s of
        (Inl e, s') \<Rightarrow> (FError e, const_effect s s')
      | (Inr d, s') \<Rightarrow> (FNumber d, const_effect s s'))"

text \<open>\<^verbatim>\<open>FormulaValueVisitor\<close>: each alternative becomes the same alternative of \<^verbatim>\<open>Cell::Value\<close>.\<close>

definition FormulaValueVisitor :: "FormulaValue \<Rightarrow> CellValue" where
  "FormulaValueVisitor val = (case val of FNumber d \<Rightarrow> VDouble d | FError e \<Rightarrow> VError e)"

definition store_cache :: "'f Sheet \<Rightarrow> Position \<Rightarrow> FormulaValue \<Rightarrow> 'f Sheet" where
  "store_cache s pos val =
     (case lookup_cell s pos of
        None \<Rightarrow> s
      | Some c \<Rightarrow> put_cell s pos (c\<lparr>cache_m := Some val\<rparr>))"

text \<open>
  \<^verbatim>\<open>Cell::GetValue\<close> of the cell \<open>c\<close> stored at \<open>pos\<close>: the value, and the sheet with the
  caches the call filled.
\<close>

definition Cell_GetValue ::
  "'f env \<Rightarrow> 'f Sheet \<Rightarrow> Position \<Rightarrow> 'f Cell \<Rightarrow> CellValue \<times> 'f Sheet" where
  "Cell_GetValue env s pos c =
     (case value_m c of
        monostate \<Rightarrow> (VString [], s)
      | Str str \<Rightarrow>
          (if length str > 0 \<and> hd str = ESCAPE_SIGN then (VString (tl str), s)
           else (VString str, s))
      | FormulaValueImpl f \<Rightarrow>
          (case cache_m c of
             Some cached \<Rightarrow> (FormulaValueVisitor cached, s)
           | None \<Rightarrow>
               (case Formula_Evaluate env f s of
                  (val, s') \<Rightarrow> (FormulaValueVisitor val, store_cache s' pos val))))"

text \<open>What a caller does to read a value: \<^verbatim>\<open>GetCell(pos)->GetValue()\<close>.\<close>

definition GetValue_at ::
  "'f env \<Rightarrow> 'f Sheet \<Rightarrow> Position \<Rightarrow> (error + CellValue) \<times> 'f Sheet" where
  "GetValue_at env s pos =
     (case GetCell env s pos of
        Inl e \<Rightarrow> (Inl e, s)
      | Inr None \<Rightarrow> (Inl undefined_behaviour, s)
      | Inr (Some c) \<Rightarrow> (case Cell_GetValue env s pos c of (v, s') \<Rightarrow> (Inr v, s')))"

text \<open>\<^verbatim>\<open>FormulaError::ToString\<close> (formula.cpp) and the \<^verbatim>\<open>operator<<\<close> of a cell value.\<close>

definition FormulaError_ToString :: "Category \<Rightarrow> string" where
  "FormulaError_ToString category =
     (case category of Ref \<Rightarrow> ''#REF!'' | Value \<Rightarrow> ''#VALUE!'' | Div0 \<Rightarrow> ''#DIV/0!'')"

definition print_value :: "'f env \<Rightarrow> CellValue \<Rightarrow> string" where
  "print_value env v =
     (case v of
        VString str \<Rightarrow> str
      | VDouble d \<Rightarrow> show_double env d
      | VError e \<Rightarrow> FormulaError_ToString e)"

text \<open>
  \<^verbatim>\<open>Sheet::Print\<close>: the state of the two loops is the text written so far and the sheet.
  A stored null pointer would be dereferenced by the printer.
\<close>

definition Print ::
  "'f env \<Rightarrow> ('f Sheet \<Rightarrow> Position \<Rightarrow> 'f Cell \<Rightarrow> string \<times> 'f Sheet) \<Rightarrow> 'f Sheet \<Rightarrow>
   error option \<times> (string \<times> 'f Sheet)" where
  "Print env printer s =
     (case Sheet_GetPrintableSize env s of
        Inl e \<Rightarrow> (Some e, ([], s))
      | Inr sz \<Rightarrow>
          for_each
            (\<lambda>r st.
               case for_each
                      (\<lambda>c (out, u).
                         let out1 = (if c > 0 then out @ [CHR 0x09] else out) in
                         case Get env None (cells_m u) \<lparr>row = r, col = c\<rparr> of
                           Inl e \<Rightarrow> (Some e, (out1, u))
                         | Inr None \<Rightarrow> (None, (out1, u))
                         | Inr (Some None) \<Rightarrow> (Some undefined_behaviour, (out1, u))
                         | Inr (Some (Some cell)) \<Rightarrow>
                             (case printer u \<lparr>row = r, col = c\<rparr> cell of
                                (written, u') \<Rightarrow> (None, (out1 @ written, u'))))
                      [0..cols sz - 1] st of
                 (Some e, st') \<Rightarrow> (Some e, st')
               | (None, (out, u)) \<Rightarrow> (None, (out @ [CHR 0x0A], u)))
            [0..rows sz - 1] ([], s))"

definition PrintValues :: "'f env \<Rightarrow> 'f Sheet \<Rightarrow> error option \<times> (string \<times> 'f Sheet)" where
  "PrintValues env s =
     Print env (\<lambda>u pos cell. case Cell_GetValue env u pos cell of
                                (v, u') \<Rightarrow> (print_value env v, u')) s"

definition PrintTexts :: "'f env \<Rightarrow> 'f Sheet \<Rightarrow> error option \<times> (string \<times> 'f Sheet)" where
  "PrintTexts env s = Print env (\<lambda>u pos cell. (Cell_GetText env cell, u)) s"

section \<open>Sequences of public operations\<close>

datatype operation =
    OpSetCell Position string
  | OpClearCell Position
  | OpGetCell Position
  | OpGetValue Position
  | OpGetPrintableSize
  | OpPrintValues
  | OpPrintTexts

text \<open>The sheet after one operation, whatever the operation returned or threw.\<close>

fun apply_operation :: "'f env \<Rightarrow> 'f Sheet \<Rightarrow> operation \<Rightarrow> 'f Sheet" where
  "apply_operation env s (OpSetCell pos t) = snd (SetCell env s pos t)"
| "apply_operation env s (OpClearCell pos) = snd (ClearCell env s pos)"
| "apply_operation env s (OpGetCell pos) = s"
| "apply_operation env s (OpGetValue pos) = snd (GetValue_at env s pos)"
| "apply_operation env s OpGetPrintableSize = s"
| "apply_operation env s OpPrintValues = snd (snd (PrintValues env s))"
| "apply_operation env s OpPrintTexts = snd (snd (PrintTexts env s))"

definition run :: "'f env \<Rightarrow> operation list \<Rightarrow> 'f Sheet" where
  "run env ops = foldl (apply_operation env) new_Sheet ops"

section \<open>A small environment to run the engine on\<close>

text \<open>
  A parser that knows a handful of formulas, each parsed to the list of cells it
  mentions, and rejects every other text; an evaluator that counts how many of the
  mentioned cells are stored. Sixteen rows and columns, assertions compiled in.
\<close>

definition A1 :: Position where "A1 = \<lparr>row = 0, col = 0\<rparr>"
definition B1 :: Position where "B1 = \<lparr>row = 0, col = 1\<rparr>"
definition C1 :: Position where "C1 = \<lparr>row = 0, col = 2\<rparr>"
definition D1 :: Position where "D1 = \<lparr>row = 0, col = 3\<rparr>"
definition A2 :: Position where "A2 = \<lparr>row = 1, col = 0\<rparr>"

definition demo_parse :: "string \<Rightarrow> Position list option" where
  "demo_parse expression =
     (if expression = ''A1'' then Some [A1]
      else if expression = ''B1'' then Some [B1]
      else if expression = ''A2'' then Some [A2]
      else if expression = ''A1+B1'' then Some [A1, B1]
      else if expression = ''1'' then Some []
      else None)"

definition demo_execute ::
  "Position list \<Rightarrow> Position list Sheet \<Rightarrow> (Category + real) \<times> Position list Sheet" where
  "demo_execute f s = (Inr (real (length (filter (\<lambda>p. lookup_cell s p \<noteq> None) f))), s)"

definition demo_env :: "bool \<Rightarrow> Position list env" where
  "demo_env nd =
     \<lparr>MAX_ROWS = 16, MAX_COLS = 16, NDEBUG = nd, ParseFormulaAST = demo_parse,
      GetCells = (\<lambda>f. f), PrintFormula = (\<lambda>f. []), Execute = demo_execute,
      show_double = (\<lambda>d. [])\<rparr>"




section \<open>IndexedStorage: the const overload of At\<close>

text \<open>
  C7 (as the code behaves). The claim says that \<^verbatim>\<open>At(i)\<close> on an absent index fails with
  NotFound and inserts nothing, in both overloads. The non-const overload does; the const
  overload forwards to \<^verbatim>\<open>operator[]\<close>: on the empty container and index 5 it throws
  nothing, returns the default value and leaves index 5 stored.
\<close>

theorem At_const_absent_inserts:
  "At (empty_storage :: string IndexedStorage) 5 = Inl invalid_argument \<and>
   At_const nd [] (empty_storage :: string IndexedStorage) 5 =
     Inr ([], \<lparr>data_m = fmupd 5 [] fmempty, indices_m = [5]\<rparr>) \<and>
   Count (snd (projr (At_const nd [] (empty_storage :: string IndexedStorage) 5))) 5 = 1"
  by (simp add: At_def At_const_def index_op_def empty_storage_def lower_bound_def
      assert_fails_def Count_def)

section \<open>Basic facts about the operations\<close>

text \<open>The pointer stored at a position of a \<^verbatim>\<open>SheetStorage\<close>, if any.\<close>

definition ptr_at :: "'a SheetStorage \<Rightarrow> Position \<Rightarrow> 'a option" where
  "ptr_at st pos =
     (case fmlookup (data_m (rows_m st)) (row pos) of
        None \<Rightarrow> None
      | Some r \<Rightarrow> fmlookup (data_m r) (col pos))"

lemma index_op_present:
  "fmlookup (data_m st) i = Some v \<Longrightarrow> index_op nd dflt st i = Inr (v, st)"
  by (simp add: index_op_def)

lemma Count_eq_0 [simp]: "Count st i = 0 \<longleftrightarrow> fmlookup (data_m st) i = None"
  by (simp add: Count_def split: option.splits)

lemma Count_gt_0 [simp]: "0 < Count st i \<longleftrightarrow> fmlookup (data_m st) i \<noteq> None"
  by (simp add: Count_def split: option.splits)

lemma Get_eq:
  "Get env dflt st pos =
     (if IsValid env pos then Inr (ptr_at st pos) else Inl InvalidPositionException)"
  by (auto simp: Get_def ptr_at_def index_op_const_def index_op_present split: option.splits)

lemma lookup_cell_ptr_at:
  "lookup_cell s pos = (case ptr_at (cells_m s) pos of None \<Rightarrow> None | Some p \<Rightarrow> p)"
  by (simp add: lookup_cell_def ptr_at_def split: option.splits)

lemma GetCellImpl_eq:
  "GetCellImpl env s pos =
     (if IsValid env pos then Inr (lookup_cell s pos) else Inl InvalidPositionException)"
  by (simp add: GetCellImpl_def Get_eq lookup_cell_ptr_at split: option.splits)

lemma GetCell_eq:
  "GetCell env s pos =
     (if IsValid env pos then Inr (lookup_cell s pos) else Inl InvalidPositionException)"
  by (simp add: GetCell_def GetCellImpl_eq)

lemma UpdateRefs_nil [simp]: "UpdateRefs env s pos [] [] = Inr s"
  by (simp add: UpdateRefs_def)

lemma Set_op_error:
  "Set_op env dflt st pos v = Inl e \<Longrightarrow> e = InvalidPositionException \<or> e = assertion_failure"
  by (auto simp: Set_op_def index_op_def Let_def split: if_splits sum.splits option.splits)

lemma InvalidateCache_loop_error:
  "fst (InvalidateCache_loop env s queue discovered) = Some e \<Longrightarrow> e = InvalidPositionException"
proof (induction env s queue discovered rule: InvalidateCache_loop.induct)
  case (1 env s queue discovered)
  show ?case
  proof (cases "queue = []")
    case True
    with "1.prems" show ?thesis by (simp add: InvalidateCache_loop.simps)
  next
    case False
    show ?thesis
    proof (cases "IsValid env (last queue)")
      case True
      with False "1.prems" "1.IH" [OF False refl, of "lookup_cell s (last queue)"]
      show ?thesis
        by (subst (asm) InvalidateCache_loop.simps) (simp add: GetCellImpl_eq Let_def)
    next
      case False
      with \<open>queue \<noteq> []\<close> "1.prems" show ?thesis
        by (subst (asm) InvalidateCache_loop.simps) (simp add: GetCellImpl_eq Let_def)
    qed
  qed
qed

lemma SetCell_placeholder:
  assumes "GetCell env u ref = Inr None"
  shows "SetCell env u ref [] =
     (case Set_op env None (cells_m u) ref (Some (Cell_Clear new_Cell)) of
        Inl e \<Rightarrow> (Some e, u)
      | Inr cells' \<Rightarrow> InvalidateCache env (u\<lparr>cells_m := cells'\<rparr>) ref)"
  using assms by (subst SetCell.simps) (simp add: us_of_vector_def)

lemma SetCell_placeholder_error:
  assumes "GetCell env u ref = Inr None" and "fst (SetCell env u ref []) = Some e"
  shows "e = InvalidPositionException \<or> e = assertion_failure"
  using assms(2) unfolding SetCell_placeholder [OF assms(1)]
  by (auto simp: InvalidateCache_def split: sum.splits dest: Set_op_error InvalidateCache_loop_error)

text \<open>The body of the loop of \<^verbatim>\<open>SetCell\<close> that creates an empty cell for every reference.\<close>

definition materialize ::
  "'f env \<Rightarrow> Position \<Rightarrow> 'f Sheet \<Rightarrow> error option \<times> 'f Sheet" where
  "materialize env ref u =
     (case GetCell env u ref of
        Inl e \<Rightarrow> (Some e, u)
      | Inr None \<Rightarrow> SetCell env u ref []
      | Inr (Some c) \<Rightarrow> (None, u))"

lemma materialize_error:
  "fst (materialize env ref u) = Some e \<Longrightarrow>
   e = InvalidPositionException \<or> e = assertion_failure"
  by (auto simp: materialize_def GetCell_eq split: if_splits option.splits
      dest: SetCell_placeholder_error [rotated])

lemma for_each_error:
  assumes "\<And>x u e. fst (body x u) = Some e \<Longrightarrow> P e"
  shows "fst (for_each body xs s) = Some e \<Longrightarrow> P e"
proof (induction xs arbitrary: s)
  case Nil
  then show ?case by simp
next
  case (Cons x xs)
  then show ?case using assms [of x s]
    by (auto split: prod.splits option.splits)
qed

lemma SetCell_unfold:
  "SetCell env s pos t =
     (case Cell_Set env new_Cell t of
        Inl e \<Rightarrow> (Some e, s)
      | Inr cell \<Rightarrow>
          (case GetCell env s pos of
             Inl e \<Rightarrow> (Some e, s)
           | Inr old_cell \<Rightarrow>
               (case UpdateRefs env s pos
                       (case old_cell of
                          None \<Rightarrow> []
                        | Some c \<Rightarrow> us_of_vector (Cell_GetReferencedCells env c))
                       (us_of_vector (Cell_GetReferencedCells env cell)) of
                  Inl e \<Rightarrow> (Some e, s)
                | Inr s1 \<Rightarrow>
                    (case for_each (materialize env)
                            (us_of_vector (Cell_GetReferencedCells env cell)) s1 of
                       (Some e, s2) \<Rightarrow> (Some e, s2)
                     | (None, s2) \<Rightarrow>
                         (case Set_op env None (cells_m s2) pos (Some cell) of
                            Inl e \<Rightarrow> (Some e, s2)
                          | Inr cells' \<Rightarrow>
                              InvalidateCache env (s2\<lparr>cells_m := cells'\<rparr>) pos)))))"
proof -
  have m: "(\<lambda>ref u. case GetCell env u ref of
                       Inl e \<Rightarrow> (Some e, u)
                     | Inr None \<Rightarrow> SetCell env u ref []
                     | Inr (Some c) \<Rightarrow> (None, u)) = materialize env"
    by (intro ext) (simp add: materialize_def)
  show ?thesis
    by (subst SetCell.simps) (unfold Let_def m, rule refl)
qed

lemma SetCell_late_error:
  assumes c: "Cell_Set env new_Cell t = Inr cell"
    and g: "GetCell env s pos = Inr old_cell"
    and u: "UpdateRefs env s pos
              (case old_cell of None \<Rightarrow> []
               | Some c \<Rightarrow> us_of_vector (Cell_GetReferencedCells env c))
              (us_of_vector (Cell_GetReferencedCells env cell)) = Inr s1"
    and e: "fst (SetCell env s pos t) = Some e"
  shows "e = InvalidPositionException \<or> e = assertion_failure"
proof -
  obtain r s2 where f: "for_each (materialize env)
      (us_of_vector (Cell_GetReferencedCells env cell)) s1 = (r, s2)"
    by (cases "for_each (materialize env)
      (us_of_vector (Cell_GetReferencedCells env cell)) s1")
  show ?thesis
  proof (cases r)
    case (Some e')
    with c g u f e have "e' = e" by (simp add: SetCell_unfold)
    moreover have "fst (for_each (materialize env)
      (us_of_vector (Cell_GetReferencedCells env cell)) s1) = Some e'"
      using f Some by simp
    then have "e' = InvalidPositionException \<or> e' = assertion_failure"
      by (rule for_each_error [rotated]) (rule materialize_error)
    ultimately show ?thesis by simp
  next
    case None
    show ?thesis
    proof (cases "Set_op env None (cells_m s2) pos (Some cell)")
      case (Inl e')
      with c g u f None e have "e' = e" by (simp add: SetCell_unfold)
      with Inl show ?thesis by (auto dest: Set_op_error)
    next
      case (Inr cells')
      with c g u f None e
      have "fst (InvalidateCache_loop env (s2\<lparr>cells_m := cells'\<rparr>) [pos] {}) = Some e"
        by (simp add: SetCell_unfold InvalidateCache_def)
      then show ?thesis by (auto dest: InvalidateCache_loop_error)
    qed
  qed
qed

section \<open>Invariants of the containers\<close>

definition storage_ok :: "'a IndexedStorage \<Rightarrow> bool" where
  "storage_ok st \<longleftrightarrow>
     sorted_wrt (<) (indices_m st) \<and> set (indices_m st) = fset (fmdom (data_m st))"

lemma lower_bound_Cons:
  "lower_bound (x # xs) i = (if x < i then Suc (lower_bound xs i) else 0)"
  by (simp add: lower_bound_def)

lemma lower_bound_le: "lower_bound xs i \<le> length xs"
  by (simp add: lower_bound_def length_takeWhile_le)

lemma insert_at_lower_bound:
  "take (lower_bound xs i) xs @ i # drop (lower_bound xs i) xs = insort i xs"
  by (induction xs) (auto simp: lower_bound_Cons lower_bound_def)

lemma erase_at_lower_bound:
  "sorted_wrt (<) xs \<Longrightarrow> i \<in> set xs \<Longrightarrow>
   lower_bound xs i < length xs \<and>
   take (lower_bound xs i) xs @ drop (Suc (lower_bound xs i)) xs = remove1 i xs"
  by (induction xs) (auto simp: lower_bound_Cons)

lemma lower_bound_absent:
  "i \<notin> set xs \<Longrightarrow> lower_bound xs i = length xs \<or> xs ! lower_bound xs i \<noteq> i"
  using lower_bound_le [of xs i] by (metis nth_mem le_neq_implies_less)

lemma storage_ok_empty [simp]: "storage_ok empty_storage"
  by (simp add: storage_ok_def empty_storage_def)

lemma storage_ok_absent:
  "storage_ok st \<Longrightarrow> fmlookup (data_m st) i = None \<Longrightarrow> i \<notin> set (indices_m st)"
  by (auto simp: storage_ok_def dest: fmdom_notD)

lemma index_op_absent:
  assumes "storage_ok st" and "fmlookup (data_m st) i = None"
  shows "index_op nd dflt st i =
           Inr (dflt, \<lparr>data_m = fmupd i dflt (data_m st), indices_m = insort i (indices_m st)\<rparr>)"
  using lower_bound_absent [OF storage_ok_absent [OF assms]] assms(2)
  by (simp add: index_op_def assert_fails_def insert_at_lower_bound Let_def)

lemma storage_ok_insert:
  assumes "storage_ok st" and "fmlookup (data_m st) i = None"
  shows "storage_ok \<lparr>data_m = fmupd i v (data_m st), indices_m = insort i (indices_m st)\<rparr>"
  using assms storage_ok_absent [OF assms]
  by (auto simp: storage_ok_def strict_sorted_iff sorted_insort distinct_insort set_insort_key)

lemma storage_ok_assign:
  "storage_ok st \<Longrightarrow> fmlookup (data_m st) i \<noteq> None \<Longrightarrow> storage_ok (assign_at st i v)"
  by (auto simp: storage_ok_def assign_at_def dest: fmdomI)

lemma Erase_present:
  assumes "storage_ok st" and "fmlookup (data_m st) i = Some v"
  shows "Erase nd st i =
           Inr \<lparr>data_m = fmdrop i (data_m st), indices_m = remove1 i (indices_m st)\<rparr>"
    and "storage_ok \<lparr>data_m = fmdrop i (data_m st), indices_m = remove1 i (indices_m st)\<rparr>"
proof -
  have s: "sorted_wrt (<) (indices_m st)" and m: "i \<in> set (indices_m st)"
    and d: "distinct (indices_m st)"
    using assms by (auto simp: storage_ok_def strict_sorted_iff dest: fmdomI)
  have set_eq: "set (remove1 i (indices_m st)) = fset (fmdom (fmdrop i (data_m st)))"
    using assms(1) d by (auto simp: storage_ok_def)
  show ok: "storage_ok \<lparr>data_m = fmdrop i (data_m st), indices_m = remove1 i (indices_m st)\<rparr>"
    using s d set_eq by (simp add: storage_ok_def strict_sorted_iff sorted_remove1)
  have "distinct (remove1 i (indices_m st))" using d by simp
  then have "length (remove1 i (indices_m st)) = card (set (remove1 i (indices_m st)))"
    by (simp add: distinct_card)
  then have card: "fcard (fmdom (fmdrop i (data_m st))) = length (remove1 i (indices_m st))"
    unfolding set_eq by (simp add: fcard.rep_eq)
  from erase_at_lower_bound [OF s m] assms(2) card show "Erase nd st i =
           Inr \<lparr>data_m = fmdrop i (data_m st), indices_m = remove1 i (indices_m st)\<rparr>"
    by (simp add: Erase_def assert_fails_def Let_def)
qed


lemma storage_ok_nonempty:
  "storage_ok st \<Longrightarrow> indices_m st = [] \<longleftrightarrow> fmdom (data_m st) = {||}"
  by (auto simp: storage_ok_def simp flip: fset_cong)

lemma Empty_ok: "storage_ok st \<Longrightarrow> Empty nd st = Inr (indices_m st = [])"
  by (auto simp: Empty_def assert_fails_def storage_ok_nonempty)


lemma sorted_last_Max: "sorted xs \<Longrightarrow> xs \<noteq> [] \<Longrightarrow> last xs = Max (set xs)"
proof (induction xs)
  case Nil
  then show ?case by simp
next
  case (Cons x xs)
  show ?case
  proof (cases "xs = []")
    case True
    then show ?thesis by simp
  next
    case False
    with Cons have l: "last xs = Max (set xs)" by simp
    have "x \<le> Max (set xs)" using Cons.prems(1) False
      by (metis List.finite_set Max_ge l last_in_set order_trans sorted_simps(2))
    then show ?thesis using False l by (simp add: max_def)
  qed
qed

lemma BackIndex_ok:
  assumes "storage_ok st" and "indices_m st \<noteq> []"
  shows "BackIndex nd st = Inr (Max (set (indices_m st)))"
proof -
  have "sorted (indices_m st)" using assms(1) by (simp add: storage_ok_def strict_sorted_iff)
  then have "last (indices_m st) = Max (set (indices_m st))"
    using assms(2) by (rule sorted_last_Max)
  then show ?thesis using assms(2) by (simp add: BackIndex_def assert_fails_def)
qed


definition grid_ok :: "'f env \<Rightarrow> 'f Cell option SheetStorage \<Rightarrow> bool" where
  "grid_ok env st \<longleftrightarrow>
     storage_ok (rows_m st) \<and>
     (\<forall>i r. fmlookup (data_m (rows_m st)) i = Some r \<longrightarrow>
        storage_ok r \<and> indices_m r \<noteq> [] \<and>
        (\<forall>j x. fmlookup (data_m r) j = Some x \<longrightarrow>
           x \<noteq> None \<and> IsValid env \<lparr>row = i, col = j\<rparr>))"

lemma Position_eq_iff: "p = q \<longleftrightarrow> row p = row q \<and> col p = col q"
  for p q :: Position
  by auto

lemma Position_eta [simp]: "\<lparr>row = row p, col = col p\<rparr> = p"
  for p :: Position
  by simp

lemma grid_ok_eta [simp]: "grid_ok env \<lparr>rows_m = rows_m st\<rparr> = grid_ok env st"
  by (simp add: grid_ok_def)

lemma grid_ok_new [simp]: "grid_ok env (cells_m new_Sheet)"
  by (simp add: grid_ok_def new_Sheet_def empty_storage_def storage_ok_def)

lemma Set_op_ptr_at:
  assumes "Set_op env dflt st pos v = Inr st'"
  shows "ptr_at st' q = (if q = pos then Some v else ptr_at st q)"
  using assms
  by (auto simp: Set_op_def index_op_def ptr_at_def assign_at_def Let_def Position_eq_iff
      empty_storage_def split: if_splits option.splits)

lemma Set_op_valid: "Set_op env dflt st pos v = Inr st' \<Longrightarrow> IsValid env pos"
  by (auto simp: Set_op_def split: if_splits)

lemma Set_op_ok:
  assumes g: "grid_ok env st" and v: "IsValid env pos"
  shows "\<exists>st'. Set_op env None st pos (Some c) = Inr st' \<and> grid_ok env st'"
proof (cases "fmlookup (data_m (rows_m st)) (row pos)")
  case None
  let ?r = "\<lparr>data_m = fmupd (col pos) (Some c) (fmupd (col pos) None fmempty),
             indices_m = [col pos]\<rparr>"
  let ?rs = "\<lparr>data_m = fmupd (row pos) ?r (fmupd (row pos) empty_storage (data_m (rows_m st))),
              indices_m = insort (row pos) (indices_m (rows_m st))\<rparr>"
  have ok: "storage_ok (rows_m st)" using g by (simp add: grid_ok_def)
  have "index_op (NDEBUG env) None (empty_storage :: 'a Cell option IndexedStorage) (col pos) =
          Inr (None, \<lparr>data_m = fmupd (col pos) None fmempty, indices_m = [col pos]\<rparr>)"
    by (simp add: index_op_def empty_storage_def lower_bound_def assert_fails_def)
  then have "Set_op env None st pos (Some c) = Inr \<lparr>rows_m = ?rs\<rparr>"
    using v None ok
    by (simp add: Set_op_def index_op_absent assign_at_def)
  moreover have "storage_ok ?rs"
    using storage_ok_insert [OF ok None, of ?r] by (simp add: storage_ok_def)
  moreover have "storage_ok ?r" by (simp add: storage_ok_def)
  ultimately show ?thesis using g v
    by (auto simp: grid_ok_def split: if_splits)
next
  case (Some r)
  have ok: "storage_ok (rows_m st)" and rok: "storage_ok r" and rne: "indices_m r \<noteq> []"
    using g Some by (auto simp: grid_ok_def)
  show ?thesis
  proof (cases "fmlookup (data_m r) (col pos)")
    case None
    let ?r = "\<lparr>data_m = fmupd (col pos) (Some c) (fmupd (col pos) None (data_m r)),
               indices_m = insort (col pos) (indices_m r)\<rparr>"
    have "Set_op env None st pos (Some c) = Inr \<lparr>rows_m = assign_at (rows_m st) (row pos) ?r\<rparr>"
      using v Some None rok
      by (simp add: Set_op_def index_op_present index_op_absent assign_at_def)
    moreover have "storage_ok ?r"
      using storage_ok_insert [OF rok None, of "Some c"] by (simp add: storage_ok_def)
    moreover have "storage_ok (assign_at (rows_m st) (row pos) ?r)"
      using ok Some by (simp add: storage_ok_assign)
    moreover have "indices_m ?r \<noteq> []"
      by (metis IndexedStorage.select_convs(2) insert_not_empty list.set(1) set_insort_key)
    ultimately show ?thesis using g v Some
      by (auto simp: grid_ok_def assign_at_def split: if_splits)
  next
    case (Some x)
    note r = \<open>fmlookup (data_m (rows_m st)) (row pos) = Some r\<close>
    have "Set_op env None st pos (Some c) =
            Inr \<lparr>rows_m = assign_at (rows_m st) (row pos) (assign_at r (col pos) (Some c))\<rparr>"
      using v \<open>fmlookup (data_m (rows_m st)) (row pos) = Some r\<close> Some
      by (simp add: Set_op_def index_op_present)
    moreover have "storage_ok (assign_at r (col pos) (Some c))"
      using rok Some by (simp add: storage_ok_assign)
    moreover have "storage_ok (assign_at (rows_m st) (row pos) (assign_at r (col pos) (Some c)))"
      using ok \<open>fmlookup (data_m (rows_m st)) (row pos) = Some r\<close> by (simp add: storage_ok_assign)
    ultimately show ?thesis using g v rne r
      by (auto simp: grid_ok_def assign_at_def split: if_splits)
  qed
qed


lemma Clear_op_valid: "Clear_op env st pos = Inr st' \<Longrightarrow> IsValid env pos"
  by (auto simp: Clear_op_def split: if_splits)

lemma Clear_op_ok:
  assumes g: "grid_ok env st" and v: "IsValid env pos"
  shows "\<exists>st'. Clear_op env st pos = Inr st' \<and> grid_ok env st'"
proof (cases "fmlookup (data_m (rows_m st)) (row pos)")
  case None
  then show ?thesis using g v by (simp add: Clear_op_def)
next
  case (Some r)
  have ok: "storage_ok (rows_m st)" and rok: "storage_ok r"
    using g Some by (auto simp: grid_ok_def)
  show ?thesis
  proof (cases "fmlookup (data_m r) (col pos)")
    case None
    from None show ?thesis using g v Some by (simp add: Clear_op_def index_op_present)
  next
    case (Some x)
    let ?r = "\<lparr>data_m = fmdrop (col pos) (data_m r), indices_m = remove1 (col pos) (indices_m r)\<rparr>"
    note r = \<open>fmlookup (data_m (rows_m st)) (row pos) = Some r\<close>
    have er: "Erase (NDEBUG env) r (col pos) = Inr ?r" and rok': "storage_ok ?r"
      using Erase_present [OF rok Some] by auto
    have aok: "storage_ok (assign_at (rows_m st) (row pos) ?r)"
      using ok r by (simp add: storage_ok_assign)
    show ?thesis
    proof (cases "indices_m ?r = []")
      case True
      let ?rs = "\<lparr>data_m = fmdrop (row pos) (data_m (assign_at (rows_m st) (row pos) ?r)),
                  indices_m = remove1 (row pos) (indices_m (assign_at (rows_m st) (row pos) ?r))\<rparr>"
      have "fmlookup (data_m (assign_at (rows_m st) (row pos) ?r)) (row pos) = Some ?r"
        by (simp add: assign_at_def)
      from Erase_present [OF aok this]
      have "Erase (NDEBUG env) (assign_at (rows_m st) (row pos) ?r) (row pos) = Inr ?rs"
        and "storage_ok ?rs" by auto
      moreover have "Empty (NDEBUG env) ?r = Inr True" using Empty_ok [OF rok'] True by simp
      ultimately have "Clear_op env st pos = Inr \<lparr>rows_m = ?rs\<rparr>" and "storage_ok ?rs"
        using v r Some er by (simp_all add: Clear_op_def index_op_present)
      then show ?thesis using g r
        by (auto simp: grid_ok_def assign_at_def split: if_splits)
    next
      case False
      have "Empty (NDEBUG env) ?r = Inr False" using Empty_ok [OF rok'] False by simp
      then have "Clear_op env st pos = Inr \<lparr>rows_m = assign_at (rows_m st) (row pos) ?r\<rparr>"
        using v r Some er by (simp add: Clear_op_def index_op_present)
      then show ?thesis using g aok rok' False r
        by (auto simp: grid_ok_def assign_at_def split: if_splits)
    qed
  qed
qed

section \<open>SetCell: failure leaves the sheet as it was\<close>

text \<open>
  C2. When \<^verbatim>\<open>SetCell(pos, text)\<close> throws \<^verbatim>\<open>FormulaException\<close> (the spec's FormulaSyntax) or
  \<^verbatim>\<open>CircularDependencyException\<close>, the sheet after the call is the sheet before it: the
  grid with every stored cell and its cache, and the graph \<^verbatim>\<open>refs_from_\<close>.
\<close>

theorem SetCell_error_atomic:
  assumes "fst (SetCell env s pos t) = Some FormulaException \<or>
           fst (SetCell env s pos t) = Some CircularDependencyException"
  shows "snd (SetCell env s pos t) = s"
proof (cases "Cell_Set env new_Cell t")
  case (Inl e)
  then show ?thesis by (simp add: SetCell_unfold)
next
  case c: (Inr cell)
  show ?thesis
  proof (cases "GetCell env s pos")
    case (Inl e)
    with c show ?thesis by (simp add: SetCell_unfold)
  next
    case g: (Inr old_cell)
    show ?thesis
    proof (cases "UpdateRefs env s pos
              (case old_cell of None \<Rightarrow> []
               | Some c \<Rightarrow> us_of_vector (Cell_GetReferencedCells env c))
              (us_of_vector (Cell_GetReferencedCells env cell))")
      case (Inl e)
      with c g show ?thesis by (simp add: SetCell_unfold)
    next
      case (Inr s1)
      from assms SetCell_late_error [OF c g Inr] show ?thesis by auto
    qed
  qed
qed


theorem SetCell_error_atomic_witness:
  "fst (SetCell (demo_env True) (run (demo_env True) [OpSetCell A1 ''=B1'']) B1 ''=A1'')
     = Some CircularDependencyException \<and>
   snd (SetCell (demo_env True) (run (demo_env True) [OpSetCell A1 ''=B1'']) B1 ''=A1'')
     = run (demo_env True) [OpSetCell A1 ''=B1'']"
proof -
  have h: "fst (SetCell (demo_env True) (run (demo_env True) [OpSetCell A1 ''=B1'']) B1 ''=A1'')
     = Some CircularDependencyException"
    by code_simp
  with SetCell_error_atomic [of "demo_env True" "run (demo_env True) [OpSetCell A1 ''=B1'']"
      B1 "''=A1''"]
  show ?thesis by simp
qed

section \<open>SetCell at an invalid position\<close>

text \<open>
  C6 (as stated, refuted). The claim puts the position check first, so that an invalid
  position always gives InvalidPosition. \<^verbatim>\<open>SetCell\<close> builds the candidate cell before it
  looks at the position: at row \<open>-1\<close> with a text the parser rejects, the exception is
  \<^verbatim>\<open>FormulaException\<close>.
\<close>

theorem SetCell_invalid_position_counterexample:
  "\<not> IsValid (demo_env True) \<lparr>row = - 1, col = 0\<rparr> \<and>
   fst (SetCell (demo_env True) new_Sheet \<lparr>row = - 1, col = 0\<rparr> ''=('')
     = Some FormulaException"
  by code_simp

text \<open>
  C6 (amended). At an invalid position \<^verbatim>\<open>SetCell\<close> always fails and leaves the sheet as it
  was: with \<^verbatim>\<open>FormulaException\<close> when the text is a formula (longer than one character,
  starting with \<open>=\<close>) that the parser rejects, and with \<^verbatim>\<open>InvalidPositionException\<close> for
  every other text.
\<close>

theorem SetCell_invalid_position:
  assumes "\<not> IsValid env pos"
  shows "SetCell env s pos t =
     (Some (if 1 < length t \<and> hd t = CHR ''='' \<and> ParseFormulaAST env (tl t) = None
            then FormulaException else InvalidPositionException), s)"
  using assms
  by (simp add: SetCell_unfold Cell_Set_def ParseFormula_def GetCell_eq FORMULA_SIGN_def
      split: option.splits)

theorem SetCell_invalid_position_witness:
  "\<not> IsValid (demo_env True) \<lparr>row = 0, col = 16\<rparr> \<and>
   SetCell (demo_env True) new_Sheet \<lparr>row = 0, col = 16\<rparr> ''=A1''
     = (Some InvalidPositionException, new_Sheet)"
proof -
  have h: "\<not> IsValid (demo_env True) \<lparr>row = 0, col = 16\<rparr>"
    by (simp add: IsValid_def demo_env_def)
  have p: "ParseFormulaAST (demo_env True) ''A1'' \<noteq> None"
    by (simp add: demo_env_def demo_parse_def)
  from SetCell_invalid_position [OF h, of new_Sheet "''=A1''"] h p show ?thesis by simp
qed

section \<open>The cycle check on a diamond\<close>

text \<open>The relation "\<open>p\<close> refers to \<open>q\<close>" that a graph \<^verbatim>\<open>refs_from_\<close> stores.\<close>

definition refers :: "(Position, Position list) fmap \<Rightarrow> (Position \<times> Position) set" where
  "refers g = (\<Union>q \<in> fset (fmdom g). (\<lambda>p. (p, q)) ` set (refs_to g q))"

text \<open>
  C1 (as the code behaves). The claim says the walk reports a cycle exactly when
  committing the edit would create one, and that rediscovering a vertex implies a cycle.
  After \<open>A1 = 1\<close>, \<open>B1 = A1\<close>, \<open>C1 = A1 + B1\<close> the cell \<open>C1\<close> refers to \<open>A1\<close> along two
  paths. Setting \<open>D1\<close> to \<open>=A1\<close> walks from \<open>A1\<close> to its referrers, meets \<open>C1\<close> twice and
  reports a cycle; \<^verbatim>\<open>SetCell\<close> throws, although the graph with the new edge has no cycle.
  The same holds with assertions compiled in and out, and in whichever order the set
  \<^verbatim>\<open>refs_from_[A1]\<close> iterates over \<open>B1\<close> and \<open>C1\<close>.
\<close>

theorem IsCircularReference_diamond:
  "IsCircularReference (demo_env False)
     (run (demo_env False) [OpSetCell A1 ''1'', OpSetCell B1 ''=A1'', OpSetCell C1 ''=A1+B1''])
     D1 A1 [] = Inr True \<and>
   fst (SetCell (demo_env False)
     (run (demo_env False) [OpSetCell A1 ''1'', OpSetCell B1 ''=A1'', OpSetCell C1 ''=A1+B1''])
     D1 ''=A1'') = Some CircularDependencyException \<and>
   fst (SetCell (demo_env True)
     (run (demo_env True) [OpSetCell A1 ''1'', OpSetCell B1 ''=A1'', OpSetCell C1 ''=A1+B1''])
     D1 ''=A1'') = Some CircularDependencyException \<and>
   acyclic (refers (add_refs_loop (refs_from_m
     (run (demo_env False) [OpSetCell A1 ''1'', OpSetCell B1 ''=A1'', OpSetCell C1 ''=A1+B1'']))
     D1 [A1])) \<and>
   IsCircularReference_loop (fmupd A1 [B1, C1] (fmupd B1 [C1] fmempty)) D1 [] [D1, A1] {} \<and>
   IsCircularReference_loop (fmupd A1 [C1, B1] (fmupd B1 [C1] fmempty)) D1 [] [D1, A1] {}"
  by code_simp

section \<open>ClearCell and the caches of referrers\<close>

text \<open>
  C3 (as the code behaves). The claim says that after \<^verbatim>\<open>ClearCell(pos)\<close> a referrer's
  value is evaluated again and sees \<open>pos\<close> empty. \<^verbatim>\<open>ClearCell\<close> invalidates no cache: with
  \<open>A1 = 1\<close>, \<open>B1 = A1\<close> and the value of \<open>B1\<close> read once, clearing \<open>A1\<close> leaves the cache
  of \<open>B1\<close> in place, and reading \<open>B1\<close> returns the cached number, not what evaluating the
  formula on the sheet without \<open>A1\<close> gives.
\<close>

theorem ClearCell_keeps_referrer_cache:
  "lookup_cell (run (demo_env False)
      [OpSetCell A1 ''1'', OpSetCell B1 ''=A1'', OpGetValue B1, OpClearCell A1]) A1 = None \<and>
   map_option cache_m (lookup_cell (run (demo_env False)
      [OpSetCell A1 ''1'', OpSetCell B1 ''=A1'', OpGetValue B1, OpClearCell A1]) B1)
     = Some (Some (FNumber 1)) \<and>
   fst (GetValue_at (demo_env False) (run (demo_env False)
      [OpSetCell A1 ''1'', OpSetCell B1 ''=A1'', OpGetValue B1, OpClearCell A1]) B1)
     = Inr (VDouble 1) \<and>
   fst (Formula_Evaluate (demo_env False) [A1] (run (demo_env False)
      [OpSetCell A1 ''1'', OpSetCell B1 ''=A1'', OpGetValue B1, OpClearCell A1]))
     = FNumber 0"
  by code_simp

section \<open>Writing the same formula twice\<close>

text \<open>
  C9 (as the code behaves). The claim says a second identical \<^verbatim>\<open>SetCell\<close> succeeds and
  changes neither graph nor printable size. In \<^verbatim>\<open>UpdateRefs\<close> the \<^verbatim>\<open>else\<close> branch of the
  second loop asserts, for a reference the old and the new cell share, that
  \<^verbatim>\<open>refs_from_\<close> does not hold it, the opposite of what the first loop asserts for the
  same reference. With assertions compiled in, setting \<open>A1\<close> to \<open>=B1\<close> twice aborts in
  the second call; with \<^verbatim>\<open>NDEBUG\<close> the second call succeeds.
\<close>

theorem SetCell_twice_assertion:
  "fst (SetCell (demo_env False) new_Sheet A1 ''=B1'') = None \<and>
   fst (SetCell (demo_env False) (run (demo_env False) [OpSetCell A1 ''=B1'']) A1 ''=B1'')
     = Some assertion_failure \<and>
   fst (SetCell (demo_env True) (run (demo_env True) [OpSetCell A1 ''=B1'']) A1 ''=B1'')
     = None"
  by code_simp

section \<open>What a successful SetCell changes\<close>

subsection \<open>The graph after UpdateRefs\<close>

lemma has_ref_upd:
  "has_ref (fmupd k ps g) q r \<longleftrightarrow> (if q = k then r \<in> set ps else has_ref g q r)"
  by (simp add: has_ref_def)

lemma has_ref_drop:
  "has_ref (fmdrop k g) q r \<longleftrightarrow> q \<noteq> k \<and> has_ref g q r"
  by (simp add: has_ref_def)

lemma has_ref_refs_to: "has_ref g q r \<longleftrightarrow> r \<in> set (refs_to g q)"
  by (simp add: has_ref_def refs_to_def split: option.splits)

lemma has_ref_add_refs_loop:
  "has_ref (add_refs_loop g pos xs) q r \<longleftrightarrow> has_ref g q r \<or> (r = pos \<and> q \<in> set xs)"
proof (induction xs arbitrary: g)
  case Nil
  then show ?case by simp
next
  case (Cons x xs)
  have "has_ref (fmupd x (us_insert pos (refs_to g x)) g) q r \<longleftrightarrow>
          has_ref g q r \<or> (r = pos \<and> q = x)"
    by (cases "q = x") (auto simp: has_ref_upd has_ref_refs_to [of g])
  with Cons.IH [of "fmupd x (us_insert pos (refs_to g x)) g"] show ?case
    by (simp only: add_refs_loop.simps set_simps insert_iff) blast
qed

lemma removeAll_eq_Nil: "removeAll x xs = [] \<longleftrightarrow> (\<forall>y \<in> set xs. y = x)"
  by (induction xs) auto

lemma has_ref_remove_refs_loop:
  "remove_refs_loop nd g pos xs = Inr g' \<Longrightarrow>
   has_ref g' q r \<longleftrightarrow> has_ref g q r \<and> \<not> (r = pos \<and> q \<in> set xs)"
proof (induction xs arbitrary: g)
  case Nil
  then show ?case by simp
next
  case (Cons x xs)
  from Cons.prems obtain ps where ps: "fmlookup g x = Some ps"
    by (cases "fmlookup g x") (simp_all split: if_splits)
  show ?case
  proof (cases "removeAll pos ps = []")
    case True
    with Cons.prems ps have "remove_refs_loop nd (fmdrop x g) pos xs = Inr g'"
      by (simp add: us_erase_def split: if_splits)
    from Cons.IH [OF this] True ps show ?thesis
      by (auto simp: has_ref_drop has_ref_def [of g] removeAll_eq_Nil)
  next
    case False
    with Cons.prems ps
    have "remove_refs_loop nd (fmupd x (removeAll pos ps) g) pos xs = Inr g'"
      by (simp add: us_erase_def split: if_splits)
    from Cons.IH [OF this] ps show ?thesis
      by (auto simp: has_ref_upd has_ref_def [of g])
  qed
qed

lemma set_refs_add_loop:
  "refs_add_loop env s pos old new acc = Inr ra \<Longrightarrow> set ra = set acc \<union> (set new - set old)"
  by (induction new arbitrary: acc) (auto split: if_splits)

lemma set_refs_del_loop:
  "refs_del_loop env s pos new old acc = Inr rd \<Longrightarrow> set rd = set acc \<union> (set old - set new)"
  by (induction old arbitrary: acc) (auto split: if_splits)

lemma UpdateRefs_Inr:
  assumes "UpdateRefs env s pos old new = Inr s1"
  obtains refs_add refs_del g where
    "set refs_add = set new - set old" and "set refs_del = set old - set new"
    and "cycle_check_loop env s pos refs_del refs_add = None"
    and "remove_refs_loop (NDEBUG env) (add_refs_loop (refs_from_m s) pos refs_add) pos refs_del
           = Inr g"
    and "s1 = s\<lparr>refs_from_m := g\<rparr>"
proof -
  from assms obtain refs_add where a: "refs_add_loop env s pos old new [] = Inr refs_add"
    by (cases "refs_add_loop env s pos old new []") (simp_all add: UpdateRefs_def)
  from assms a obtain refs_del where d: "refs_del_loop env s pos new old [] = Inr refs_del"
    by (cases "refs_del_loop env s pos new old []") (simp_all add: UpdateRefs_def)
  from assms a d have c: "cycle_check_loop env s pos refs_del refs_add = None"
    by (cases "cycle_check_loop env s pos refs_del refs_add") (simp_all add: UpdateRefs_def)
  from assms a d c obtain g where
    r: "remove_refs_loop (NDEBUG env) (add_refs_loop (refs_from_m s) pos refs_add) pos refs_del
          = Inr g"
    by (cases "remove_refs_loop (NDEBUG env) (add_refs_loop (refs_from_m s) pos refs_add)
          pos refs_del") (simp_all add: UpdateRefs_def)
  from assms a d c r have "s1 = s\<lparr>refs_from_m := g\<rparr>" by (simp add: UpdateRefs_def)
  with set_refs_add_loop [OF a] set_refs_del_loop [OF d] c r that show thesis by simp
qed

lemma UpdateRefs_cells: "UpdateRefs env s pos old new = Inr s1 \<Longrightarrow> cells_m s1 = cells_m s"
  by (erule UpdateRefs_Inr) simp

lemma UpdateRefs_has_ref:
  assumes "UpdateRefs env s pos old new = Inr s1"
  shows "has_ref (refs_from_m s1) q r \<longleftrightarrow>
     (has_ref (refs_from_m s) q r \<or> (r = pos \<and> q \<in> set new - set old)) \<and>
     \<not> (r = pos \<and> q \<in> set old - set new)"
proof -
  from assms obtain refs_add refs_del g where
    a: "set refs_add = set new - set old" and d: "set refs_del = set old - set new"
    and r: "remove_refs_loop (NDEBUG env) (add_refs_loop (refs_from_m s) pos refs_add) pos
              refs_del = Inr g"
    and s1: "s1 = s\<lparr>refs_from_m := g\<rparr>"
    by (rule UpdateRefs_Inr)
  show ?thesis
    unfolding s1 using has_ref_remove_refs_loop [OF r, of q r] a d
    by (simp add: has_ref_add_refs_loop)
qed

subsection \<open>Writes that only touch caches\<close>

lemma lookup_cell_put_cell:
  assumes "lookup_cell s pos = Some c0"
  shows "lookup_cell (put_cell s pos c) q = (if q = pos then Some c else lookup_cell s q)"
  using assms
  by (auto simp: lookup_cell_def put_cell_def assign_at_def Position_eq_iff
      split: option.splits)

lemma grid_ok_stored:
  assumes "grid_ok env st" and "ptr_at st pos = Some x"
  shows "IsValid env pos \<and> x \<noteq> None"
proof -
  from assms(2) obtain r where "fmlookup (data_m (rows_m st)) (row pos) = Some r"
    and "fmlookup (data_m r) (col pos) = Some x"
    by (auto simp: ptr_at_def split: option.splits)
  with assms(1) have "x \<noteq> None \<and> IsValid env \<lparr>row = row pos, col = col pos\<rparr>"
    unfolding grid_ok_def by blast
  then show ?thesis by simp
qed

lemma grid_ok_lookup_valid:
  "grid_ok env (cells_m s) \<Longrightarrow> lookup_cell s pos = Some c \<Longrightarrow> IsValid env pos"
  by (auto simp: lookup_cell_ptr_at split: option.splits dest: grid_ok_stored)

lemma grid_ok_put_cell:
  assumes "grid_ok env (cells_m s)" and "lookup_cell s pos = Some c0"
  shows "grid_ok env (cells_m (put_cell s pos c))"
proof -
  from assms(2) obtain r where r: "fmlookup (data_m (rows_m (cells_m s))) (row pos) = Some r"
    and c: "fmlookup (data_m r) (col pos) = Some (Some c0)"
    by (auto simp: lookup_cell_def split: option.splits)
  have "storage_ok (assign_at r (col pos) (Some c))"
    using assms(1) r c by (auto simp: grid_ok_def intro: storage_ok_assign)
  moreover have "storage_ok (assign_at (rows_m (cells_m s)) (row pos)
      (assign_at r (col pos) (Some c)))"
    using assms(1) r by (auto simp: grid_ok_def intro: storage_ok_assign)
  moreover have "IsValid env pos" using assms by (rule grid_ok_lookup_valid)
  ultimately show ?thesis
    using assms(1) r c
    by (auto simp: grid_ok_def put_cell_def assign_at_def split: if_splits)
qed

text \<open>
  \<open>s'\<close> stores cells at the positions \<open>s\<close> does, each with the content it has in \<open>s\<close>
  and with its cache as in \<open>s\<close> or empty; the graph is the same.
\<close>

definition caches_cleared :: "'f Sheet \<Rightarrow> 'f Sheet \<Rightarrow> bool" where
  "caches_cleared s s' \<longleftrightarrow>
     refs_from_m s' = refs_from_m s \<and>
     (\<forall>q. rel_option
            (\<lambda>c c'. value_m c' = value_m c \<and> (cache_m c' = cache_m c \<or> cache_m c' = None))
            (lookup_cell s q) (lookup_cell s' q))"

lemma caches_cleared_refl [simp]: "caches_cleared s s"
  by (simp add: caches_cleared_def option.rel_refl)

lemma caches_cleared_trans:
  assumes "caches_cleared s s'" and "caches_cleared s' s''"
  shows "caches_cleared s s''"
proof -
  have "rel_option
            (\<lambda>c c'. value_m c' = value_m c \<and> (cache_m c' = cache_m c \<or> cache_m c' = None))
            (lookup_cell s q) (lookup_cell s'' q)" for q
    using assms [unfolded caches_cleared_def, THEN conjunct2, THEN spec, of q]
    by (cases "lookup_cell s q"; cases "lookup_cell s' q"; cases "lookup_cell s'' q") auto
  with assms show ?thesis by (simp add: caches_cleared_def)
qed

lemma caches_cleared_invalidate:
  assumes "lookup_cell s v = Some c"
  shows "caches_cleared s (put_cell s v (Cell_InvalidateCache c))"
  using assms
  by (auto simp: caches_cleared_def lookup_cell_put_cell Cell_InvalidateCache_def
      option.rel_refl)

lemma InvalidateCache_loop_step:
  assumes "queue \<noteq> []" and "IsValid env (last queue)"
  shows "InvalidateCache_loop env s queue discovered =
     InvalidateCache_loop env
       (case lookup_cell s (last queue) of
          None \<Rightarrow> s
        | Some c \<Rightarrow> put_cell s (last queue) (Cell_InvalidateCache c))
       (butlast queue @
          filter (\<lambda>r. r \<notin> insert (last queue) discovered)
            (refs_to (refs_from_m s) (last queue)))
       (insert (last queue) discovered)"
  using assms by (subst InvalidateCache_loop.simps) (simp add: GetCellImpl_eq Let_def)

lemma InvalidateCache_loop_stop:
  assumes "queue \<noteq> []" and "\<not> IsValid env (last queue)"
  shows "InvalidateCache_loop env s queue discovered = (Some InvalidPositionException, s)"
  using assms by (subst InvalidateCache_loop.simps) (simp add: GetCellImpl_eq Let_def)

lemma InvalidateCache_loop_Nil [simp]:
  "InvalidateCache_loop env s [] discovered = (None, s)"
  by (subst InvalidateCache_loop.simps) simp

lemma InvalidateCache_loop_frame:
  "caches_cleared s (snd (InvalidateCache_loop env s queue discovered)) \<and>
   (grid_ok env (cells_m s) \<longrightarrow>
      grid_ok env (cells_m (snd (InvalidateCache_loop env s queue discovered))))"
proof (induction env s queue discovered rule: InvalidateCache_loop.induct)
  case (1 env s queue discovered)
  show ?case
  proof (cases "queue = []")
    case True
    then show ?thesis by simp
  next
    case False
    show ?thesis
    proof (cases "IsValid env (last queue)")
      case v: True
      let ?s1 = "case lookup_cell s (last queue) of
          None \<Rightarrow> s
        | Some c \<Rightarrow> put_cell s (last queue) (Cell_InvalidateCache c)"
      have g: "GetCellImpl env s (last queue) = Inr (lookup_cell s (last queue))"
        using v by (simp add: GetCellImpl_eq)
      note IH = "1.IH" [OF False refl g, folded InvalidateCache_loop_step [OF False v]]
      have c1: "caches_cleared s ?s1"
        by (auto split: option.splits intro: caches_cleared_invalidate)
      have g1: "grid_ok env (cells_m s) \<longrightarrow> grid_ok env (cells_m ?s1)"
        by (auto split: option.splits intro: grid_ok_put_cell)
      from IH c1 g1 show ?thesis
        by (auto intro: caches_cleared_trans)
    next
      case False
      with \<open>queue \<noteq> []\<close> show ?thesis by (simp add: InvalidateCache_loop_stop)
    qed
  qed
qed

subsection \<open>The loop that creates empty cells\<close>

text \<open>
  \<open>u'\<close> is \<open>u\<close> with caches possibly emptied and with new empty cells at positions of
  \<open>R\<close> that held no cell.
\<close>

definition placeholders :: "Position set \<Rightarrow> 'f Sheet \<Rightarrow> 'f Sheet \<Rightarrow> bool" where
  "placeholders R u u' \<longleftrightarrow>
     refs_from_m u' = refs_from_m u \<and>
     (\<forall>q. case lookup_cell u q of
            Some c \<Rightarrow>
              (\<exists>c'. lookup_cell u' q = Some c' \<and> value_m c' = value_m c \<and>
                    (cache_m c' = cache_m c \<or> cache_m c' = None))
          | None \<Rightarrow> lookup_cell u' q = None \<or> (q \<in> R \<and> lookup_cell u' q = Some new_Cell))"

lemma placeholdersD:
  "placeholders R u u' \<Longrightarrow>
   (case lookup_cell u q of
      Some c \<Rightarrow>
        (\<exists>c'. lookup_cell u' q = Some c' \<and> value_m c' = value_m c \<and>
              (cache_m c' = cache_m c \<or> cache_m c' = None))
    | None \<Rightarrow> lookup_cell u' q = None \<or> (q \<in> R \<and> lookup_cell u' q = Some new_Cell))"
  by (simp add: placeholders_def)

lemma Cell_eqI: "value_m c = value_m c' \<Longrightarrow> cache_m c = cache_m c' \<Longrightarrow> c = c'"
  for c c' :: "'f Cell"
  by simp

lemma caches_cleared_placeholders: "caches_cleared u u' \<Longrightarrow> placeholders R u u'"
  unfolding caches_cleared_def placeholders_def
proof (intro conjI allI, goal_cases)
  case 1
  then show ?case by simp
next
  case (2 q)
  then have "rel_option
            (\<lambda>c c'. value_m c' = value_m c \<and> (cache_m c' = cache_m c \<or> cache_m c' = None))
            (lookup_cell u q) (lookup_cell u' q)" by simp
  then show ?case by (cases "lookup_cell u q"; cases "lookup_cell u' q") auto
qed

lemma placeholders_refl [simp]: "placeholders R u u"
  by (simp add: caches_cleared_placeholders)

lemma placeholders_trans:
  assumes "placeholders R u u'" and "placeholders R' u' u''"
  shows "placeholders (R \<union> R') u u''"
  unfolding placeholders_def
proof (intro conjI allI, goal_cases)
  case 1
  from assms show ?case by (simp add: placeholders_def)
next
  case (2 q)
  from assms(1) have a: "case lookup_cell u q of
            Some c \<Rightarrow>
              (\<exists>c'. lookup_cell u' q = Some c' \<and> value_m c' = value_m c \<and>
                    (cache_m c' = cache_m c \<or> cache_m c' = None))
          | None \<Rightarrow> lookup_cell u' q = None \<or> (q \<in> R \<and> lookup_cell u' q = Some new_Cell)"
    by (simp add: placeholders_def)
  from assms(2) have b: "case lookup_cell u' q of
            Some c \<Rightarrow>
              (\<exists>c'. lookup_cell u'' q = Some c' \<and> value_m c' = value_m c \<and>
                    (cache_m c' = cache_m c \<or> cache_m c' = None))
          | None \<Rightarrow> lookup_cell u'' q = None \<or> (q \<in> R' \<and> lookup_cell u'' q = Some new_Cell)"
    by (simp add: placeholders_def)
  show ?case
  proof (cases "lookup_cell u q")
    case (Some c)
    with a b show ?thesis by auto
  next
    case None
    show ?thesis
    proof (cases "lookup_cell u' q")
      case n: None
      with None b show ?thesis by auto
    next
      case (Some c1)
      with None a have q: "q \<in> R" and c1: "c1 = new_Cell" by auto
      from b Some obtain c2 where c2: "lookup_cell u'' q = Some c2"
        and "value_m c2 = value_m c1" and "cache_m c2 = cache_m c1 \<or> cache_m c2 = None"
        by auto
      then have "c2 = new_Cell" unfolding c1 by (intro Cell_eqI) (auto simp: new_Cell_def)
      with None q c2 show ?thesis by simp
    qed
  qed
qed

lemma placeholders_mono:
  assumes "placeholders R u u'" and "R \<subseteq> R'"
  shows "placeholders R' u u'"
  unfolding placeholders_def
proof (intro conjI allI, goal_cases)
  case 1
  from assms show ?case by (simp add: placeholders_def)
next
  case (2 q)
  from assms(1) have "case lookup_cell u q of
            Some c \<Rightarrow>
              (\<exists>c'. lookup_cell u' q = Some c' \<and> value_m c' = value_m c \<and>
                    (cache_m c' = cache_m c \<or> cache_m c' = None))
          | None \<Rightarrow> lookup_cell u' q = None \<or> (q \<in> R \<and> lookup_cell u' q = Some new_Cell)"
    by (simp add: placeholders_def)
  with assms(2) show ?case by (cases "lookup_cell u q") auto
qed

lemma lookup_cell_Set_op:
  assumes "Set_op env None (cells_m u) pos (Some c) = Inr cells'"
  shows "lookup_cell (u\<lparr>cells_m := cells'\<rparr>) q = (if q = pos then Some c else lookup_cell u q)"
  using Set_op_ptr_at [OF assms, of q] by (simp add: lookup_cell_ptr_at)

lemma InvalidateCache_frame:
  "caches_cleared s (snd (InvalidateCache env s pos))"
  "grid_ok env (cells_m s) \<Longrightarrow> grid_ok env (cells_m (snd (InvalidateCache env s pos)))"
  using InvalidateCache_loop_frame [of s env "[pos]" "{}"] by (simp_all add: InvalidateCache_def)

lemma Cell_Clear_new [simp]: "Cell_Clear new_Cell = new_Cell"
  by (simp add: Cell_Clear_def new_Cell_def)

lemma materialize_frame:
  "placeholders {ref} u (snd (materialize env ref u)) \<and>
   (grid_ok env (cells_m u) \<longrightarrow> grid_ok env (cells_m (snd (materialize env ref u))))"
proof (cases "IsValid env ref \<and> lookup_cell u ref = None")
  case False
  then show ?thesis
    by (auto simp: materialize_def GetCell_eq split: option.splits)
next
  case True
  then have g: "GetCell env u ref = Inr None" by (simp add: GetCell_eq)
  show ?thesis
  proof (cases "Set_op env None (cells_m u) ref (Some new_Cell)")
    case (Inl e)
    with g show ?thesis by (simp add: materialize_def SetCell_placeholder)
  next
    case (Inr cells')
    let ?u1 = "u\<lparr>cells_m := cells'\<rparr>"
    have m: "materialize env ref u = InvalidateCache env ?u1 ref"
      using g Inr by (simp add: materialize_def SetCell_placeholder)
    have "placeholders {ref} u ?u1"
      using True by (auto simp: placeholders_def lookup_cell_Set_op [OF Inr] split: option.splits)
    from placeholders_trans [OF this caches_cleared_placeholders [OF InvalidateCache_frame(1)]]
    have "placeholders {ref} u (snd (InvalidateCache env ?u1 ref))" by simp
    moreover have "grid_ok env (cells_m u) \<longrightarrow> grid_ok env (cells_m ?u1)"
      using Set_op_ok [of env "cells_m u" ref new_Cell] True Inr by auto
    ultimately show ?thesis unfolding m using InvalidateCache_frame(2) [of env ?u1 ref] by simp
  qed
qed

lemma for_each_materialize_frame:
  "placeholders (set refs) u (snd (for_each (materialize env) refs u)) \<and>
   (grid_ok env (cells_m u) \<longrightarrow>
      grid_ok env (cells_m (snd (for_each (materialize env) refs u))))"
proof (induction refs arbitrary: u)
  case Nil
  then show ?case by simp
next
  case (Cons ref refs)
  obtain r u1 where m: "materialize env ref u = (r, u1)" by (cases "materialize env ref u")
  from materialize_frame [of ref u env] m
  have p1: "placeholders {ref} u u1" and g1: "grid_ok env (cells_m u) \<longrightarrow> grid_ok env (cells_m u1)"
    by simp_all
  show ?case
  proof (cases r)
    case (Some e)
    with m p1 g1 show ?thesis by (auto intro: placeholders_mono)
  next
    case None
    from placeholders_trans [OF p1 Cons.IH [of u1, THEN conjunct1]]
    have "placeholders (set (ref # refs)) u (snd (for_each (materialize env) refs u1))" by simp
    with None m g1 Cons.IH [of u1] show ?thesis by simp
  qed
qed

lemma SetCell_success:
  assumes "SetCell env s pos t = (None, s')"
  obtains cell old_cell s1 s2 cells' where
    "Cell_Set env new_Cell t = Inr cell" and "GetCell env s pos = Inr old_cell"
    and "UpdateRefs env s pos
           (case old_cell of None \<Rightarrow> []
            | Some c \<Rightarrow> us_of_vector (Cell_GetReferencedCells env c))
           (us_of_vector (Cell_GetReferencedCells env cell)) = Inr s1"
    and "for_each (materialize env) (us_of_vector (Cell_GetReferencedCells env cell)) s1
           = (None, s2)"
    and "Set_op env None (cells_m s2) pos (Some cell) = Inr cells'"
    and "InvalidateCache env (s2\<lparr>cells_m := cells'\<rparr>) pos = (None, s')"
proof -
  from assms obtain cell where c: "Cell_Set env new_Cell t = Inr cell"
    by (cases "Cell_Set env new_Cell t") (simp_all add: SetCell_unfold)
  from assms c obtain old_cell where g: "GetCell env s pos = Inr old_cell"
    by (cases "GetCell env s pos") (simp_all add: SetCell_unfold)
  from assms c g obtain s1 where u: "UpdateRefs env s pos
           (case old_cell of None \<Rightarrow> []
            | Some c \<Rightarrow> us_of_vector (Cell_GetReferencedCells env c))
           (us_of_vector (Cell_GetReferencedCells env cell)) = Inr s1"
    by (cases "UpdateRefs env s pos
           (case old_cell of None \<Rightarrow> []
            | Some c \<Rightarrow> us_of_vector (Cell_GetReferencedCells env c))
           (us_of_vector (Cell_GetReferencedCells env cell))") (simp_all add: SetCell_unfold)
  obtain r s2 where f: "for_each (materialize env)
      (us_of_vector (Cell_GetReferencedCells env cell)) s1 = (r, s2)"
    by (cases "for_each (materialize env)
      (us_of_vector (Cell_GetReferencedCells env cell)) s1")
  from assms c g u f have r: "r = None" by (cases r) (simp_all add: SetCell_unfold)
  from assms c g u f r obtain cells' where
    st: "Set_op env None (cells_m s2) pos (Some cell) = Inr cells'"
    by (cases "Set_op env None (cells_m s2) pos (Some cell)") (simp_all add: SetCell_unfold)
  from assms c g u f r st have "InvalidateCache env (s2\<lparr>cells_m := cells'\<rparr>) pos = (None, s')"
    by (simp add: SetCell_unfold)
  with c g u f r st that show thesis by blast
qed

lemma Cell_Set_cache: "Cell_Set env new_Cell t = Inr cell \<Longrightarrow> cache_m cell = None"
  by (auto simp: Cell_Set_def new_Cell_def Cell_Clear_def split: if_splits sum.splits)

lemma SetCell_effect:
  assumes "SetCell env s pos t = (None, s')"
  shows "\<exists>cell. Cell_Set env new_Cell t = Inr cell \<and> lookup_cell s' pos = Some cell \<and>
     (\<forall>q. q \<noteq> pos \<longrightarrow>
        (case lookup_cell s q of
           Some c \<Rightarrow>
             (\<exists>c'. lookup_cell s' q = Some c' \<and> value_m c' = value_m c \<and>
                   (cache_m c' = cache_m c \<or> cache_m c' = None))
         | None \<Rightarrow>
             lookup_cell s' q = None \<or>
             (q \<in> set (Cell_GetReferencedCells env cell) \<and> lookup_cell s' q = Some new_Cell))) \<and>
     (\<forall>q r. r \<noteq> pos \<longrightarrow> has_ref (refs_from_m s') q r = has_ref (refs_from_m s) q r)"
proof -
  from assms obtain cell old_cell s1 s2 cells' where
    c: "Cell_Set env new_Cell t = Inr cell"
    and u: "UpdateRefs env s pos
           (case old_cell of None \<Rightarrow> []
            | Some c \<Rightarrow> us_of_vector (Cell_GetReferencedCells env c))
           (us_of_vector (Cell_GetReferencedCells env cell)) = Inr s1"
    and f: "for_each (materialize env) (us_of_vector (Cell_GetReferencedCells env cell)) s1
           = (None, s2)"
    and st: "Set_op env None (cells_m s2) pos (Some cell) = Inr cells'"
    and i: "InvalidateCache env (s2\<lparr>cells_m := cells'\<rparr>) pos = (None, s')"
    by (rule SetCell_success)
  let ?s3 = "s2\<lparr>cells_m := cells'\<rparr>"
  have l1: "lookup_cell s1 q = lookup_cell s q" for q
    using UpdateRefs_cells [OF u] by (simp add: lookup_cell_def)
  have p12: "placeholders (set (Cell_GetReferencedCells env cell)) s1 s2"
    using for_each_materialize_frame [of "us_of_vector (Cell_GetReferencedCells env cell)" s1 env]
      f by simp
  have c3: "caches_cleared ?s3 s'" using InvalidateCache_frame(1) [of ?s3 env pos] i by simp
  then have p3: "placeholders {} ?s3 s'" by (rule caches_cleared_placeholders)
  have l3: "lookup_cell ?s3 q = (if q = pos then Some cell else lookup_cell s2 q)" for q
    by (rule lookup_cell_Set_op [OF st])
  \<comment> \<open>the cell at \<open>pos\<close>\<close>
  from placeholdersD [OF p3, of pos] l3 [of pos] obtain c' where
    c': "lookup_cell s' pos = Some c'"
    and "value_m c' = value_m cell" and "cache_m c' = cache_m cell \<or> cache_m c' = None"
    by auto
  then have "c' = cell" using Cell_Set_cache [OF c] by (intro Cell_eqI) auto
  with c' have at_pos: "lookup_cell s' pos = Some cell" by simp
  \<comment> \<open>the other cells\<close>
  have others: "case lookup_cell s q of
           Some c \<Rightarrow>
             (\<exists>c'. lookup_cell s' q = Some c' \<and> value_m c' = value_m c \<and>
                   (cache_m c' = cache_m c \<or> cache_m c' = None))
         | None \<Rightarrow>
             lookup_cell s' q = None \<or>
             (q \<in> set (Cell_GetReferencedCells env cell) \<and> lookup_cell s' q = Some new_Cell)"
    if "q \<noteq> pos" for q
  proof -
    have l3': "lookup_cell ?s3 q = lookup_cell s2 q" using l3 [of q] that by simp
    from placeholdersD [OF p12, of q] have a: "case lookup_cell s q of
            Some c \<Rightarrow>
              (\<exists>c'. lookup_cell ?s3 q = Some c' \<and> value_m c' = value_m c \<and>
                    (cache_m c' = cache_m c \<or> cache_m c' = None))
          | None \<Rightarrow> lookup_cell ?s3 q = None \<or>
              (q \<in> set (Cell_GetReferencedCells env cell) \<and> lookup_cell ?s3 q = Some new_Cell)"
      unfolding l3' l1 .
    from placeholdersD [OF p3, of q] have b: "case lookup_cell ?s3 q of
            Some c \<Rightarrow>
              (\<exists>c'. lookup_cell s' q = Some c' \<and> value_m c' = value_m c \<and>
                    (cache_m c' = cache_m c \<or> cache_m c' = None))
          | None \<Rightarrow> lookup_cell s' q = None"
      by (cases "lookup_cell ?s3 q") auto
    show ?thesis
    proof (cases "lookup_cell s q")
      case (Some c0)
      with a b show ?thesis by auto
    next
      case None
      show ?thesis
      proof (cases "lookup_cell ?s3 q")
        case n: None
        with None b show ?thesis by simp
      next
        case (Some c1)
        with None a have q: "q \<in> set (Cell_GetReferencedCells env cell)" and c1: "c1 = new_Cell"
          by auto
        from b Some obtain c2 where c2: "lookup_cell s' q = Some c2"
          and "value_m c2 = value_m c1" and "cache_m c2 = cache_m c1 \<or> cache_m c2 = None"
          by auto
        then have "c2 = new_Cell" unfolding c1 by (intro Cell_eqI) (auto simp: new_Cell_def)
        with None q c2 show ?thesis by simp
      qed
    qed
  qed
  \<comment> \<open>the graph\<close>
  have "refs_from_m s' = refs_from_m s1"
    using c3 p12 by (simp add: caches_cleared_def placeholders_def)
  then have graph: "has_ref (refs_from_m s') q r = has_ref (refs_from_m s) q r"
    if "r \<noteq> pos" for q r
    using UpdateRefs_has_ref [OF u, of q r] that by simp
  from c at_pos others graph show ?thesis by blast
qed

text \<open>
  C10. A successful \<^verbatim>\<open>SetCell(pos, text)\<close> stores the new cell at \<open>pos\<close>. At every other
  position a cell that was stored is still stored with the same content (its cache is
  as before or emptied); a position that held no cell still holds none, or it is one of
  the new cell's references and now holds an empty cell. For every \<open>r\<close> other than \<open>pos\<close>
  and every \<open>q\<close>, \<open>r\<close> is in \<^verbatim>\<open>refs_from_[q]\<close> after the call exactly when it was before.
\<close>

theorem SetCell_frame:
  assumes "SetCell env s pos t = (None, s')"
  shows "\<exists>cell. Cell_Set env new_Cell t = Inr cell \<and> lookup_cell s' pos = Some cell \<and>
     (\<forall>q. q \<noteq> pos \<longrightarrow>
        (case lookup_cell s q of
           Some c \<Rightarrow>
             (\<exists>c'. lookup_cell s' q = Some c' \<and> value_m c' = value_m c \<and>
                   (cache_m c' = cache_m c \<or> cache_m c' = None))
         | None \<Rightarrow>
             lookup_cell s' q = None \<or>
             (q \<in> set (Cell_GetReferencedCells env cell) \<and> lookup_cell s' q = Some new_Cell))) \<and>
     (\<forall>q r. r \<noteq> pos \<longrightarrow> has_ref (refs_from_m s') q r = has_ref (refs_from_m s) q r)"
  using assms by (rule SetCell_effect)

theorem SetCell_frame_witness:
  "SetCell (demo_env True) new_Sheet A1 ''=B1'' =
     (None, snd (SetCell (demo_env True) new_Sheet A1 ''=B1'')) \<and>
   (\<exists>cell. Cell_Set (demo_env True) new_Cell ''=B1'' = Inr cell \<and>
      lookup_cell (snd (SetCell (demo_env True) new_Sheet A1 ''=B1'')) A1 = Some cell) \<and>
   has_ref (refs_from_m (snd (SetCell (demo_env True) new_Sheet A1 ''=B1''))) A1 B1 =
     has_ref (refs_from_m (new_Sheet :: Position list Sheet)) A1 B1"
proof -
  have "fst (SetCell (demo_env True) new_Sheet A1 ''=B1'') = None" by code_simp
  then have h: "SetCell (demo_env True) new_Sheet A1 ''=B1'' =
     (None, snd (SetCell (demo_env True) new_Sheet A1 ''=B1''))"
    by (metis prod.collapse)
  have ne: "B1 \<noteq> A1" by (simp add: A1_def B1_def)
  from SetCell_frame [OF h] ne h show ?thesis by blast
qed

section \<open>The grid invariant\<close>

subsection \<open>The grid invariant under every operation\<close>

lemma storage_ok_fmmap_keys [simp]:
  "storage_ok (r\<lparr>data_m := fmmap_keys f (data_m r)\<rparr>) = storage_ok r"
  by (simp add: storage_ok_def)

text \<open>What \<open>const_effect\<close> does to one stored pointer.\<close>

definition take_cache :: "'f Sheet \<Rightarrow> int \<Rightarrow> int \<Rightarrow> 'f Cell option \<Rightarrow> 'f Cell option" where
  "take_cache s' i j cell_ptr =
     (case cell_ptr of
        None \<Rightarrow> None
      | Some c \<Rightarrow>
          (case lookup_cell s' \<lparr>row = i, col = j\<rparr> of
             None \<Rightarrow> Some c
           | Some c' \<Rightarrow> Some (c\<lparr>cache_m := cache_m c'\<rparr>)))"

lemma const_effect_rows:
  "rows_m (cells_m (const_effect s s')) =
     (rows_m (cells_m s))
       \<lparr>data_m := fmmap_keys (\<lambda>i r. r\<lparr>data_m := fmmap_keys (take_cache s' i) (data_m r)\<rparr>)
                   (data_m (rows_m (cells_m s)))\<rparr>"
  by (simp add: const_effect_def take_cache_def [abs_def])

lemma take_cache_None [simp]: "take_cache s' i j x = None \<longleftrightarrow> x = None"
  by (simp add: take_cache_def split: option.splits)

lemma grid_ok_const_effect:
  assumes "grid_ok env (cells_m s)"
  shows "grid_ok env (cells_m (const_effect s s'))"
  unfolding grid_ok_def const_effect_rows
proof (intro conjI allI impI, goal_cases)
  case 1
  from assms show ?case by (simp add: grid_ok_def)
next
  case (2 i r')
  then obtain r where r: "fmlookup (data_m (rows_m (cells_m s))) i = Some r"
    and r': "r' = r\<lparr>data_m := fmmap_keys (take_cache s' i) (data_m r)\<rparr>"
    by auto
  with assms show ?case by (simp add: grid_ok_def)
next
  case (3 i r')
  then obtain r where r: "fmlookup (data_m (rows_m (cells_m s))) i = Some r"
    and r': "r' = r\<lparr>data_m := fmmap_keys (take_cache s' i) (data_m r)\<rparr>"
    by auto
  with assms show ?case by (simp add: grid_ok_def)
next
  case (4 i r' j x')
  then obtain r where r: "fmlookup (data_m (rows_m (cells_m s))) i = Some r"
    and r': "r' = r\<lparr>data_m := fmmap_keys (take_cache s' i) (data_m r)\<rparr>"
    by auto
  with 4 obtain x where x: "fmlookup (data_m r) j = Some x" and x': "x' = take_cache s' i j x"
    by auto
  from assms r x have "x \<noteq> None" unfolding grid_ok_def by blast
  then show ?case unfolding x' by simp
next
  case (5 i r' j x')
  then obtain r where r: "fmlookup (data_m (rows_m (cells_m s))) i = Some r"
    and r': "r' = r\<lparr>data_m := fmmap_keys (take_cache s' i) (data_m r)\<rparr>"
    by auto
  with 5 obtain x where x: "fmlookup (data_m r) j = Some x"
    by auto
  from assms r x show ?case unfolding grid_ok_def by blast
qed

lemma grid_ok_store_cache:
  "grid_ok env (cells_m s) \<Longrightarrow> grid_ok env (cells_m (store_cache s pos val))"
  by (auto simp: store_cache_def split: option.splits intro: grid_ok_put_cell)

lemma grid_ok_Cell_GetValue:
  "grid_ok env (cells_m s) \<Longrightarrow> grid_ok env (cells_m (snd (Cell_GetValue env s pos c)))"
  by (auto simp: Cell_GetValue_def Formula_Evaluate_def
      split: ValueImpl.splits option.splits prod.splits sum.splits
      intro!: grid_ok_store_cache grid_ok_const_effect)

lemma grid_ok_Cell_GetValue_pair:
  "Cell_GetValue env s pos c = (v, s') \<Longrightarrow> grid_ok env (cells_m s) \<Longrightarrow>
   grid_ok env (cells_m s')"
  using grid_ok_Cell_GetValue [of env s pos c] by simp

lemma grid_ok_GetValue_at:
  "grid_ok env (cells_m s) \<Longrightarrow> grid_ok env (cells_m (snd (GetValue_at env s pos)))"
  by (auto simp: GetValue_at_def split: sum.splits option.splits prod.splits
      dest: grid_ok_Cell_GetValue_pair)

lemma for_each_invariant:
  assumes "\<And>x u. P u \<Longrightarrow> P (snd (body x u))" and "P s"
  shows "P (snd (for_each body xs s))"
  using assms(2)
proof (induction xs arbitrary: s)
  case Nil
  then show ?case by simp
next
  case (Cons x xs)
  obtain r u where b: "body x s = (r, u)" by (cases "body x s")
  with assms(1) [OF Cons.prems, of x] have "P u" by simp
  with Cons.IH [of u] b show ?case by (cases r) simp_all
qed

lemma grid_ok_Print:
  assumes p: "\<And>u pos cell. grid_ok env (cells_m u) \<Longrightarrow>
                grid_ok env (cells_m (snd (printer u pos cell)))"
    and g: "grid_ok env (cells_m s)"
  shows "grid_ok env (cells_m (snd (snd (Print env printer s))))"
proof (cases "Sheet_GetPrintableSize env s")
  case (Inl e)
  with g show ?thesis by (simp add: Print_def)
next
  case (Inr sz)
  let ?P = "\<lambda>st :: string \<times> 'a Sheet. grid_ok env (cells_m (snd st))"
  have inner: "?P (snd (for_each
                      (\<lambda>c (out, u).
                         let out1 = (if c > 0 then out @ [CHR 0x09] else out) in
                         case Get env None (cells_m u) \<lparr>row = r, col = c\<rparr> of
                           Inl e \<Rightarrow> (Some e, (out1, u))
                         | Inr None \<Rightarrow> (None, (out1, u))
                         | Inr (Some None) \<Rightarrow> (Some undefined_behaviour, (out1, u))
                         | Inr (Some (Some cell)) \<Rightarrow>
                             (case printer u \<lparr>row = r, col = c\<rparr> cell of
                                (written, u') \<Rightarrow> (None, (out1 @ written, u'))))
                      cs st))" if "?P st" for r cs st
    using that
  proof (rule for_each_invariant [rotated], goal_cases)
    case (1 c st')
    have "grid_ok env (cells_m u')"
      if "printer (snd st') \<lparr>row = r, col = c\<rparr> cell = (written, u')" for cell written u'
      using p [OF 1, of "\<lparr>row = r, col = c\<rparr>" cell] that by simp
    with 1 show ?case
      by (cases st') (auto simp: Let_def split: sum.splits option.splits prod.splits)
  qed
  have "?P (snd (for_each
            (\<lambda>r st.
               case for_each
                      (\<lambda>c (out, u).
                         let out1 = (if c > 0 then out @ [CHR 0x09] else out) in
                         case Get env None (cells_m u) \<lparr>row = r, col = c\<rparr> of
                           Inl e \<Rightarrow> (Some e, (out1, u))
                         | Inr None \<Rightarrow> (None, (out1, u))
                         | Inr (Some None) \<Rightarrow> (Some undefined_behaviour, (out1, u))
                         | Inr (Some (Some cell)) \<Rightarrow>
                             (case printer u \<lparr>row = r, col = c\<rparr> cell of
                                (written, u') \<Rightarrow> (None, (out1 @ written, u'))))
                      [0..cols sz - 1] st of
                 (Some e, st') \<Rightarrow> (Some e, st')
               | (None, (out, u)) \<Rightarrow> (None, (out @ [CHR 0x0A], u)))
            [0..rows sz - 1] ([], s)))"
  proof (rule for_each_invariant, goal_cases)
    case (1 r st)
    from inner [OF 1, of r "[0..cols sz - 1]"] show ?case
      by (auto split: prod.splits option.splits)
  next
    case 2
    from g show ?case by simp
  qed
  with Inr show ?thesis by (simp add: Print_def)
qed

lemma grid_ok_SetCell:
  assumes g: "grid_ok env (cells_m s)"
  shows "grid_ok env (cells_m (snd (SetCell env s pos t)))"
proof (cases "Cell_Set env new_Cell t")
  case (Inl e)
  with g show ?thesis by (simp add: SetCell_unfold)
next
  case c: (Inr cell)
  show ?thesis
  proof (cases "IsValid env pos")
    case False
    with g c show ?thesis by (simp add: SetCell_unfold GetCell_eq)
  next
    case v: True
    let ?old = "case lookup_cell s pos of None \<Rightarrow> []
                | Some c \<Rightarrow> us_of_vector (Cell_GetReferencedCells env c)"
    let ?new = "us_of_vector (Cell_GetReferencedCells env cell)"
    show ?thesis
    proof (cases "UpdateRefs env s pos ?old ?new")
      case (Inl e)
      with g c v show ?thesis by (simp add: SetCell_unfold GetCell_eq)
    next
      case (Inr s1)
      have g1: "grid_ok env (cells_m s1)" using UpdateRefs_cells [OF Inr] g by simp
      obtain r s2 where f: "for_each (materialize env) ?new s1 = (r, s2)"
        by (cases "for_each (materialize env) ?new s1")
      have g2: "grid_ok env (cells_m s2)"
        using for_each_materialize_frame [of ?new s1 env] g1 f by simp
      show ?thesis
      proof (cases r)
        case (Some e)
        with c v Inr f g2 show ?thesis by (simp add: SetCell_unfold GetCell_eq)
      next
        case None
        from Set_op_ok [OF g2 v, of cell] obtain cells' where
          st: "Set_op env None (cells_m s2) pos (Some cell) = Inr cells'"
          and g3: "grid_ok env cells'" by blast
        have "grid_ok env (cells_m (snd (InvalidateCache env (s2\<lparr>cells_m := cells'\<rparr>) pos)))"
          using g3 by (intro InvalidateCache_frame(2)) simp
        with c v Inr f None st show ?thesis by (simp add: SetCell_unfold GetCell_eq)
      qed
    qed
  qed
qed

lemma grid_ok_ClearCell:
  assumes g: "grid_ok env (cells_m s)"
  shows "grid_ok env (cells_m (snd (ClearCell env s pos)))"
proof (cases "IsValid env pos")
  case False
  with g show ?thesis by (simp add: ClearCell_def GetCellImpl_eq)
next
  case v: True
  show ?thesis
  proof (cases "lookup_cell s pos")
    case None
    with g v show ?thesis by (simp add: ClearCell_def GetCellImpl_eq)
  next
    case (Some cell)
    show ?thesis
    proof (cases "UpdateRefs env s pos (us_of_vector (Cell_GetReferencedCells env cell)) []")
      case (Inl e)
      with g v Some show ?thesis by (simp add: ClearCell_def GetCellImpl_eq)
    next
      case (Inr s1)
      have g1: "grid_ok env (cells_m s1)" using UpdateRefs_cells [OF Inr] g by simp
      from Clear_op_ok [OF g1 v] obtain cells' where
        "Clear_op env (cells_m s1) pos = Inr cells'" and "grid_ok env cells'" by blast
      with v Some Inr show ?thesis by (simp add: ClearCell_def GetCellImpl_eq)
    qed
  qed
qed

lemma grid_ok_apply_operation:
  "grid_ok env (cells_m s) \<Longrightarrow> grid_ok env (cells_m (apply_operation env s op))"
proof (cases op)
  case OpPrintValues
  assume "grid_ok env (cells_m s)"
  then show ?thesis unfolding OpPrintValues apply_operation.simps PrintValues_def
  proof (rule grid_ok_Print [rotated], goal_cases)
    case (1 u pos cell)
    then show ?case by (auto split: prod.splits dest: grid_ok_Cell_GetValue_pair)
  qed
next
  case OpPrintTexts
  assume "grid_ok env (cells_m s)"
  then show ?thesis unfolding OpPrintTexts apply_operation.simps PrintTexts_def
    by (rule grid_ok_Print [rotated]) simp
qed (simp_all add: grid_ok_SetCell grid_ok_ClearCell grid_ok_GetValue_at)

lemma foldl_invariant:
  assumes "\<And>s x. P s \<Longrightarrow> P (f s x)" and "P s"
  shows "P (foldl f s xs)"
  using assms(2) by (induction xs arbitrary: s) (simp_all add: assms(1))

lemma grid_ok_run: "grid_ok env (cells_m (run env ops))"
  unfolding run_def by (rule foldl_invariant) (simp_all add: grid_ok_apply_operation)

subsection \<open>The printable size of a well-formed grid\<close>

text \<open>The positions that hold a cell.\<close>

definition stored :: "'f Sheet \<Rightarrow> Position set" where
  "stored s = {p. lookup_cell s p \<noteq> None}"

lemma stored_ptr_at:
  assumes "grid_ok env (cells_m s)"
  shows "p \<in> stored s \<longleftrightarrow> ptr_at (cells_m s) p \<noteq> None"
  using grid_ok_stored [OF assms, of p]
  by (auto simp: stored_def lookup_cell_ptr_at split: option.splits)

lemma stored_rows:
  assumes g: "grid_ok env (cells_m s)"
  shows "row ` stored s = set (indices_m (rows_m (cells_m s)))"
proof (intro set_eqI iffI)
  fix i assume "i \<in> row ` stored s"
  then obtain p where "ptr_at (cells_m s) p \<noteq> None" and "i = row p"
    using stored_ptr_at [OF g] by auto
  then have "i |\<in>| fmdom (data_m (rows_m (cells_m s)))"
    by (auto simp: ptr_at_def split: option.splits intro: fmdomI)
  with g show "i \<in> set (indices_m (rows_m (cells_m s)))"
    by (simp add: grid_ok_def storage_ok_def)
next
  fix i assume "i \<in> set (indices_m (rows_m (cells_m s)))"
  with g obtain r where r: "fmlookup (data_m (rows_m (cells_m s))) i = Some r"
    by (auto simp: grid_ok_def storage_ok_def dest: fmdomE)
  with g have "storage_ok r" and "indices_m r \<noteq> []" by (auto simp: grid_ok_def)
  then obtain j where "j |\<in>| fmdom (data_m r)"
    by (cases "indices_m r") (auto simp: storage_ok_def)
  then obtain x where "fmlookup (data_m r) j = Some x" by (auto dest: fmdomE)
  with r have "ptr_at (cells_m s) \<lparr>row = i, col = j\<rparr> \<noteq> None" by (simp add: ptr_at_def)
  then have "\<lparr>row = i, col = j\<rparr> \<in> stored s" using stored_ptr_at [OF g] by simp
  then show "i \<in> row ` stored s" by force
qed

lemma stored_cols:
  assumes g: "grid_ok env (cells_m s)"
    and r: "fmlookup (data_m (rows_m (cells_m s))) i = Some r"
  shows "j \<in> set (indices_m r) \<longleftrightarrow> \<lparr>row = i, col = j\<rparr> \<in> stored s"
proof -
  from g r have "set (indices_m r) = fset (fmdom (data_m r))"
    by (auto simp: grid_ok_def storage_ok_def)
  then show ?thesis using r
    by (auto simp: stored_ptr_at [OF g] ptr_at_def dest: fmdomE intro: fmdomI)
qed

lemma GetPrintableSize_loop_ok:
  assumes g: "grid_ok env (cells_m s)"
    and "set is \<subseteq> set (indices_m (rows_m (cells_m s)))"
  shows "\<exists>c. GetPrintableSize_loop nd (rows_m (cells_m s)) is acc = Inr c \<and> acc \<le> c \<and>
     (\<forall>p \<in> stored s. row p \<in> set is \<longrightarrow> col p + 1 \<le> c) \<and>
     (c = acc \<or> (\<exists>p \<in> stored s. c = col p + 1))"
  using assms(2)
proof (induction "is" arbitrary: acc)
  case Nil
  then show ?case by simp
next
  case (Cons i "is")
  from Cons.prems g obtain r where r: "fmlookup (data_m (rows_m (cells_m s))) i = Some r"
    by (auto simp: grid_ok_def storage_ok_def dest: fmdomE)
  with g have rok: "storage_ok r" and rne: "indices_m r \<noteq> []" by (auto simp: grid_ok_def)
  let ?b = "Max (set (indices_m r))"
  have b_in: "?b \<in> set (indices_m r)" using rne by (intro Max_in) simp_all
  have b_max: "j \<le> ?b" if "j \<in> set (indices_m r)" for j using that by simp
  from Cons.IH [of "max acc (?b + 1)"] Cons.prems obtain c where
    l: "GetPrintableSize_loop nd (rows_m (cells_m s)) is (max acc (?b + 1)) = Inr c"
    and le: "max acc (?b + 1) \<le> c"
    and ub: "\<forall>p \<in> stored s. row p \<in> set is \<longrightarrow> col p + 1 \<le> c"
    and at: "c = max acc (?b + 1) \<or> (\<exists>p \<in> stored s. c = col p + 1)"
    by auto
  have "GetPrintableSize_loop nd (rows_m (cells_m s)) (i # is) acc = Inr c"
    using r rok rne l by (simp add: iter_deref_def Empty_ok BackIndex_ok)
  moreover have "acc \<le> c" using le by simp
  moreover have "\<forall>p \<in> stored s. row p \<in> set (i # is) \<longrightarrow> col p + 1 \<le> c"
  proof (intro ballI impI)
    fix p assume p: "p \<in> stored s" and "row p \<in> set (i # is)"
    then consider "row p = i" | "row p \<in> set is" by auto
    then show "col p + 1 \<le> c"
    proof cases
      case 1
      with p have "col p \<in> set (indices_m r)"
        using stored_cols [OF g r, of "col p"] by (metis Position_eta)
      from b_max [OF this] le show ?thesis by simp
    next
      case 2
      with ub p show ?thesis by simp
    qed
  qed
  moreover have "c = acc \<or> (\<exists>p \<in> stored s. c = col p + 1)"
  proof -
    have "\<lparr>row = i, col = ?b\<rparr> \<in> stored s" using stored_cols [OF g r] b_in by simp
    then have "\<exists>p \<in> stored s. ?b + 1 = col p + 1" by force
    with at show ?thesis by (auto simp: max_def split: if_splits)
  qed
  ultimately show ?case by blast
qed

lemma GetPrintableSize_ok:
  assumes g: "grid_ok env (cells_m s)"
  shows "GetPrintableSize nd (cells_m s) =
     Inr (if stored s = {} then \<lparr>rows = 0, cols = 0\<rparr>
          else \<lparr>rows = Max (row ` stored s) + 1, cols = Max (col ` stored s) + 1\<rparr>)"
proof (cases "stored s = {}")
  case True
  then have "indices_m (rows_m (cells_m s)) = []" using stored_rows [OF g] by simp
  with g True show ?thesis by (simp add: GetPrintableSize_def Empty_ok grid_ok_def)
next
  case False
  have ne: "indices_m (rows_m (cells_m s)) \<noteq> []" using stored_rows [OF g] False by auto
  have ok: "storage_ok (rows_m (cells_m s))" using g by (simp add: grid_ok_def)
  from GetPrintableSize_loop_ok [OF g subset_refl, of nd 0] obtain c where
    l: "GetPrintableSize_loop nd (rows_m (cells_m s)) (indices_m (rows_m (cells_m s))) 0 = Inr c"
    and ub: "\<forall>p \<in> stored s. row p \<in> set (indices_m (rows_m (cells_m s))) \<longrightarrow> col p + 1 \<le> c"
    and at: "c = 0 \<or> (\<exists>p \<in> stored s. c = col p + 1)"
    by blast
  have ub': "col p + 1 \<le> c" if "p \<in> stored s" for p
    using ub that stored_rows [OF g] by blast
  have valid: "IsValid env p" if "p \<in> stored s" for p
    using that g by (auto simp: stored_def dest: grid_ok_lookup_valid)
  have fin: "finite (col ` stored s)"
  proof (rule finite_subset)
    show "col ` stored s \<subseteq> {0..<MAX_COLS env}" using valid by (auto simp: IsValid_def)
  qed simp
  from False obtain p0 where p0: "p0 \<in> stored s" by auto
  with ub' [OF p0] valid [OF p0] have "c \<noteq> 0" by (simp add: IsValid_def)
  with at obtain p where p: "p \<in> stored s" and c: "c = col p + 1" by auto
  have "Max (col ` stored s) = col p"
  proof (rule Max_eqI [OF fin])
    fix y assume "y \<in> col ` stored s"
    then show "y \<le> col p" using ub' c by auto
  next
    show "col p \<in> col ` stored s" using p by simp
  qed
  with c have c': "c = Max (col ` stored s) + 1" by simp
  show ?thesis
    using False ne ok l c' stored_rows [OF g]
    by (simp add: GetPrintableSize_def Empty_ok BackIndex_ok)
qed

section \<open>The printable size after any sequence of operations\<close>

text \<open>
  C8. After every sequence of public operations on a new sheet (each of which may
  have failed), \<^verbatim>\<open>GetPrintableSize\<close> returns \<open>{0, 0}\<close> when no cell is stored and otherwise
  one more than the largest row index and one more than the largest column index of
  the stored cells; it returns \<open>{0, 0}\<close> only when no cell is stored; and no row
  container that is stored is empty.
\<close>

theorem GetPrintableSize_after_operations:
  "Sheet_GetPrintableSize env (run env ops) =
     Inr (if stored (run env ops) = {} then \<lparr>rows = 0, cols = 0\<rparr>
          else \<lparr>rows = Max (row ` stored (run env ops)) + 1,
                cols = Max (col ` stored (run env ops)) + 1\<rparr>) \<and>
   (Sheet_GetPrintableSize env (run env ops) = Inr \<lparr>rows = 0, cols = 0\<rparr>
      \<longleftrightarrow> stored (run env ops) = {}) \<and>
   (\<forall>i r. fmlookup (data_m (rows_m (cells_m (run env ops)))) i = Some r \<longrightarrow>
      Empty (NDEBUG env) r = Inr False)"
proof -
  let ?s = "run env ops"
  have g: "grid_ok env (cells_m ?s)" by (rule grid_ok_run)
  have size: "Sheet_GetPrintableSize env ?s =
     Inr (if stored ?s = {} then \<lparr>rows = 0, cols = 0\<rparr>
          else \<lparr>rows = Max (row ` stored ?s) + 1, cols = Max (col ` stored ?s) + 1\<rparr>)"
    unfolding Sheet_GetPrintableSize_def by (rule GetPrintableSize_ok [OF g])
  have pos: "0 \<le> Max (row ` stored ?s)" if "stored ?s \<noteq> {}"
  proof -
    have "finite (row ` stored ?s)" unfolding stored_rows [OF g] by simp
    then have "Max (row ` stored ?s) \<in> row ` stored ?s" using that by (intro Max_in) simp_all
    then obtain p where "p \<in> stored ?s" and "Max (row ` stored ?s) = row p" by auto
    then show ?thesis using g
      by (auto simp: stored_def IsValid_def dest!: grid_ok_lookup_valid)
  qed
  have zero: "Sheet_GetPrintableSize env ?s = Inr \<lparr>rows = 0, cols = 0\<rparr> \<longleftrightarrow> stored ?s = {}"
  proof (cases "stored ?s = {}")
    case True
    then show ?thesis unfolding size by simp
  next
    case False
    from pos [OF False] have "Max (row ` stored ?s) + 1 \<noteq> 0" by simp
    with False show ?thesis unfolding size by simp
  qed
  have rows_ne: "Empty (NDEBUG env) r = Inr False"
    if "fmlookup (data_m (rows_m (cells_m ?s))) i = Some r" for i r
  proof -
    from g that have "storage_ok r" and "indices_m r \<noteq> []" by (auto simp: grid_ok_def)
    then show ?thesis by (simp add: Empty_ok)
  qed
  from size zero rows_ne show ?thesis by blast
qed

theorem GetPrintableSize_after_operations_witness:
  "stored (run (demo_env True) [OpSetCell B1 ''=A2'', OpClearCell A1]) \<noteq> {} \<and>
   Max (row ` stored (run (demo_env True) [OpSetCell B1 ''=A2'', OpClearCell A1])) + 1 = 2 \<and>
   Max (col ` stored (run (demo_env True) [OpSetCell B1 ''=A2'', OpClearCell A1])) + 1 = 2"
proof -
  have v: "Sheet_GetPrintableSize (demo_env True)
      (run (demo_env True) [OpSetCell B1 ''=A2'', OpClearCell A1]) = Inr \<lparr>rows = 2, cols = 2\<rparr>"
    by code_simp
  from GetPrintableSize_after_operations
    [of "demo_env True" "[OpSetCell B1 ''=A2'', OpClearCell A1]"]
  show ?thesis unfolding v by (simp split: if_splits)
qed

section \<open>Cache invalidation after SetCell\<close>

lemma refers_iff: "(p, q) \<in> refers g \<longleftrightarrow> has_ref g q p"
proof -
  have "(p, q) \<in> refers g \<longleftrightarrow> q |\<in>| fmdom g \<and> p \<in> set (refs_to g q)"
    by (auto simp: refers_def)
  moreover have "q |\<in>| fmdom g" if "p \<in> set (refs_to g q)"
    using that by (cases "fmlookup g q") (auto simp: refs_to_def intro: fmdomI)
  ultimately show ?thesis by (auto simp: has_ref_refs_to)
qed

lemma InvalidateCache_loop_covers:
  assumes "InvalidateCache_loop env s queue discovered = (None, s')"
    and "\<forall>d \<in> discovered. \<forall>c. lookup_cell s d = Some c \<longrightarrow> cache_m c = None"
    and "\<forall>d \<in> discovered. set (refs_to (refs_from_m s) d) \<subseteq> discovered \<union> set queue"
  shows "\<exists>D. discovered \<union> set queue \<subseteq> D \<and>
           (\<forall>d \<in> D. set (refs_to (refs_from_m s) d) \<subseteq> D) \<and>
           (\<forall>d \<in> D. \<forall>c. lookup_cell s' d = Some c \<longrightarrow> cache_m c = None)"
  using assms
proof (induction env s queue discovered rule: InvalidateCache_loop.induct)
  case (1 env s queue discovered)
  show ?case
  proof (cases "queue = []")
    case True
    with "1.prems" show ?thesis by (intro exI [of _ discovered]) auto
  next
    case False
    let ?v = "last queue"
    have v: "IsValid env ?v"
    proof (rule ccontr)
      assume "\<not> IsValid env ?v"
      with False "1.prems"(1) show False by (simp add: InvalidateCache_loop_stop)
    qed
    let ?s1 = "case lookup_cell s ?v of
          None \<Rightarrow> s
        | Some c \<Rightarrow> put_cell s ?v (Cell_InvalidateCache c)"
    let ?q1 = "butlast queue @
          filter (\<lambda>r. r \<notin> insert ?v discovered) (refs_to (refs_from_m s) ?v)"
    let ?d1 = "insert ?v discovered"
    have g: "GetCellImpl env s ?v = Inr (lookup_cell s ?v)"
      using v by (simp add: GetCellImpl_eq)
    have step: "InvalidateCache_loop env ?s1 ?q1 ?d1 = (None, s')"
      using "1.prems"(1) InvalidateCache_loop_step [OF False v] by simp
    have refs: "refs_from_m ?s1 = refs_from_m s" by (simp split: option.splits)
    have q: "set queue = insert ?v (set (butlast queue))"
      using False by (metis append_butlast_last_id list.simps(15) rotate1.simps(2) set_rotate1)
    have i1: "\<forall>d \<in> ?d1. \<forall>c. lookup_cell ?s1 d = Some c \<longrightarrow> cache_m c = None"
      using "1.prems"(2)
      by (auto simp: lookup_cell_put_cell Cell_InvalidateCache_def split: option.splits if_splits)
    have i2: "\<forall>d \<in> ?d1. set (refs_to (refs_from_m ?s1) d) \<subseteq> ?d1 \<union> set ?q1"
      unfolding refs using "1.prems"(3) q by auto
    from "1.IH" [OF False refl g step i1 i2] obtain D where
      D: "?d1 \<union> set ?q1 \<subseteq> D" "\<forall>d \<in> D. set (refs_to (refs_from_m ?s1) d) \<subseteq> D"
        "\<forall>d \<in> D. \<forall>c. lookup_cell s' d = Some c \<longrightarrow> cache_m c = None"
      by blast
    have "discovered \<union> set queue \<subseteq> D" using D(1) q by auto
    with D(2,3) show ?thesis unfolding refs by blast
  qed
qed

lemma InvalidateCache_covers:
  assumes "InvalidateCache env s pos = (None, s')"
    and "(q, pos) \<in> (refers (refs_from_m s))\<^sup>*"
    and "lookup_cell s' q = Some c"
  shows "cache_m c = None"
proof -
  from InvalidateCache_loop_covers [of env s "[pos]" "{}" s'] assms(1) obtain D where
    D: "pos \<in> D" "\<forall>d \<in> D. set (refs_to (refs_from_m s) d) \<subseteq> D"
      "\<forall>d \<in> D. \<forall>c. lookup_cell s' d = Some c \<longrightarrow> cache_m c = None"
    by (auto simp: InvalidateCache_def)
  from assms(2) have "q \<in> D"
  proof (induction rule: converse_rtrancl_induct)
    case base
    from D(1) show ?case .
  next
    case (step y z)
    then show ?case using D(2) by (auto simp: refers_iff has_ref_refs_to)
  qed
  with D(3) assms(3) show ?thesis by blast
qed

text \<open>
  C4. After a successful \<^verbatim>\<open>SetCell(pos, text)\<close>, every cell from which \<open>pos\<close> can be
  reached along refers-to edges of \<^verbatim>\<open>refs_from_\<close> (\<open>pos\<close> itself included) has an empty
  cache, and \<^verbatim>\<open>GetValue\<close> of such a formula cell returns what evaluating the formula
  returns.
\<close>

theorem SetCell_invalidates_referrers:
  assumes "SetCell env s pos t = (None, s')"
    and "(q, pos) \<in> (refers (refs_from_m s'))\<^sup>*"
    and "lookup_cell s' q = Some c"
  shows "cache_m c = None \<and>
     (\<forall>f. value_m c = FormulaValueImpl f \<longrightarrow>
        fst (Cell_GetValue env s' q c) = FormulaValueVisitor (fst (Formula_Evaluate env f s')))"
proof -
  from assms(1) obtain s2 cells' where
    i: "InvalidateCache env (s2\<lparr>cells_m := cells'\<rparr>) pos = (None, s')"
    by (rule SetCell_success)
  have "refs_from_m s' = refs_from_m (s2\<lparr>cells_m := cells'\<rparr>)"
    using InvalidateCache_frame(1) [of "s2\<lparr>cells_m := cells'\<rparr>" env pos] i
    by (simp add: caches_cleared_def)
  with assms(2) have "(q, pos) \<in> (refers (refs_from_m (s2\<lparr>cells_m := cells'\<rparr>)))\<^sup>*" by simp
  from InvalidateCache_covers [OF i this assms(3)] have n: "cache_m c = None" .
  then show ?thesis
    by (auto simp: Cell_GetValue_def split: prod.splits)
qed

theorem SetCell_invalidates_referrers_witness:
  "SetCell (demo_env True)
     (run (demo_env True) [OpSetCell A1 ''1'', OpSetCell B1 ''=A1'', OpGetValue B1]) A1 ''1'' =
     (None, snd (SetCell (demo_env True)
       (run (demo_env True) [OpSetCell A1 ''1'', OpSetCell B1 ''=A1'', OpGetValue B1]) A1 ''1'')) \<and>
   map_option cache_m (lookup_cell
     (run (demo_env True) [OpSetCell A1 ''1'', OpSetCell B1 ''=A1'', OpGetValue B1]) B1)
     = Some (Some (FNumber 1)) \<and>
   map_option cache_m (lookup_cell (snd (SetCell (demo_env True)
       (run (demo_env True) [OpSetCell A1 ''1'', OpSetCell B1 ''=A1'', OpGetValue B1]) A1 ''1''))
     B1) = Some None"
proof -
  let ?s = "run (demo_env True) [OpSetCell A1 ''1'', OpSetCell B1 ''=A1'', OpGetValue B1]"
  let ?s' = "snd (SetCell (demo_env True) ?s A1 ''1'')"
  have "fst (SetCell (demo_env True) ?s A1 ''1'') = None" by code_simp
  then have h: "SetCell (demo_env True) ?s A1 ''1'' = (None, ?s')" by (metis prod.collapse)
  have "has_ref (refs_from_m ?s') A1 B1" by code_simp
  then have r: "(B1, A1) \<in> (refers (refs_from_m ?s'))\<^sup>*" by (auto simp: refers_iff)
  have "lookup_cell ?s' B1 \<noteq> None" by code_simp
  then obtain c where c: "lookup_cell ?s' B1 = Some c" by auto
  have before: "map_option cache_m (lookup_cell ?s B1) = Some (Some (FNumber 1))" by code_simp
  from SetCell_invalidates_referrers [OF h r c] c h before show ?thesis by simp
qed

section \<open>The graph invariant\<close>

text \<open>
  \<open>p\<close> is in \<^verbatim>\<open>refs_from_[q]\<close> exactly when the cell stored at \<open>p\<close> refers to \<open>q\<close>, and no
  key of \<^verbatim>\<open>refs_from_\<close> has an empty set.
\<close>

definition no_empty_set :: "(Position, Position list) fmap \<Rightarrow> bool" where
  "no_empty_set g \<longleftrightarrow> (\<forall>q ps. fmlookup g q = Some ps \<longrightarrow> ps \<noteq> [])"

definition graph_ok :: "'f env \<Rightarrow> 'f Sheet \<Rightarrow> bool" where
  "graph_ok env s \<longleftrightarrow>
     (\<forall>p q. has_ref (refs_from_m s) q p \<longleftrightarrow>
        (\<exists>c. lookup_cell s p = Some c \<and> q \<in> set (Cell_GetReferencedCells env c))) \<and>
     no_empty_set (refs_from_m s)"

text \<open>
  The engine never looks at the positions a formula mentions before it has written
  them into \<^verbatim>\<open>refs_from_\<close>: \<^verbatim>\<open>Formula::GetReferencedCells\<close> hands on what the parser
  reports, and the first validity check of a reference is \<^verbatim>\<open>GetCell(ref)\<close> in the loop
  that creates empty cells. \<open>refs_valid env t\<close> says that the cell \<^verbatim>\<open>Cell::Set\<close> builds
  from the text \<open>t\<close>, if it builds one, refers to valid positions only;
  \<open>op_refs_valid\<close> asks this of the text of a \<^verbatim>\<open>SetCell\<close> and nothing of the other
  operations. \<open>parser_refs_valid\<close> is the contract of a parser under which every text
  is of this kind.
\<close>

definition refs_valid :: "'f env \<Rightarrow> string \<Rightarrow> bool" where
  "refs_valid env t =
     (case Cell_Set env new_Cell t of
        Inl e \<Rightarrow> True
      | Inr cell \<Rightarrow> list_all (IsValid env) (Cell_GetReferencedCells env cell))"

fun op_refs_valid :: "'f env \<Rightarrow> operation \<Rightarrow> bool" where
  "op_refs_valid env (OpSetCell pos t) = refs_valid env t"
| "op_refs_valid env (OpClearCell pos) = True"
| "op_refs_valid env (OpGetCell pos) = True"
| "op_refs_valid env (OpGetValue pos) = True"
| "op_refs_valid env OpGetPrintableSize = True"
| "op_refs_valid env OpPrintValues = True"
| "op_refs_valid env OpPrintTexts = True"

definition parser_refs_valid :: "'f env \<Rightarrow> bool" where
  "parser_refs_valid env \<longleftrightarrow>
     (\<forall>e f. ParseFormulaAST env e = Some f \<longrightarrow> (\<forall>p \<in> set (GetCells env f). IsValid env p))"




subsection \<open>When the walks cannot fail\<close>








lemma parser_refs_valid_text:
  assumes "parser_refs_valid env"
  shows "refs_valid env t"
proof (cases "Cell_Set env new_Cell t")
  case (Inl e)
  then show ?thesis by (simp add: refs_valid_def)
next
  case (Inr cell)
  with assms have "\<forall>p \<in> set (Cell_GetReferencedCells env cell). IsValid env p"
    by (auto simp: Cell_Set_def ParseFormula_def Cell_GetReferencedCells_def
        Formula_GetReferencedCells_def parser_refs_valid_def Cell_Clear_def new_Cell_def
        split: if_splits option.splits)
  with Inr show ?thesis by (simp add: refs_valid_def list_all_iff)
qed

lemma parser_refs_valid_ops:
  "parser_refs_valid env \<Longrightarrow> list_all (op_refs_valid env) ops"
proof (induction ops)
  case Nil
  then show ?case by simp
next
  case (Cons op ops)
  have "op_refs_valid env op"
    using Cons.prems by (cases op) (simp_all add: parser_refs_valid_text)
  with Cons show ?case by simp
qed

subsection \<open>Operations that only fill caches\<close>

definition same_values :: "'f Sheet \<Rightarrow> 'f Sheet \<Rightarrow> bool" where
  "same_values s s' \<longleftrightarrow>
     refs_from_m s' = refs_from_m s \<and>
     (\<forall>q. rel_option (\<lambda>c c'. value_m c' = value_m c) (lookup_cell s q) (lookup_cell s' q))"

lemma same_values_refl [simp]: "same_values s s"
  by (simp add: same_values_def option.rel_refl)


lemma Cell_refs_value:
  "value_m c' = value_m c \<Longrightarrow> Cell_GetReferencedCells env c' = Cell_GetReferencedCells env c"
  by (simp add: Cell_GetReferencedCells_def)



lemma refs_from_const_effect [simp]: "refs_from_m (const_effect s s') = refs_from_m s"
  by (simp add: const_effect_def)







subsection \<open>SetCell and ClearCell keep grid and graph in step\<close>

definition sheet_inv :: "'f env \<Rightarrow> 'f Sheet \<Rightarrow> bool" where
  "sheet_inv env s \<longleftrightarrow> grid_ok env (cells_m s) \<and> graph_ok env s"








lemma sheet_inv_new [simp]: "sheet_inv env new_Sheet"
  by (simp add: sheet_inv_def graph_ok_def no_empty_set_def has_ref_def lookup_cell_def
      new_Sheet_def empty_storage_def grid_ok_def storage_ok_def)



section \<open>The dependency graph after any sequence of operations\<close>




section \<open>A second identical SetCell with assertions compiled out\<close>

lemma refs_add_loop_same:
  "NDEBUG env \<Longrightarrow> set new \<subseteq> set old \<Longrightarrow> refs_add_loop env s pos old new acc = Inr acc"
  by (induction new arbitrary: acc) (auto simp: assert_fails_def)

lemma refs_del_loop_same:
  "NDEBUG env \<Longrightarrow> set old \<subseteq> set new \<Longrightarrow> refs_del_loop env s pos new old acc = Inr acc"
  by (induction old arbitrary: acc) (auto simp: assert_fails_def)

lemma UpdateRefs_same: "NDEBUG env \<Longrightarrow> UpdateRefs env s pos refs refs = Inr s"
  by (simp add: UpdateRefs_def refs_add_loop_same refs_del_loop_same)

lemma fmupd_idem: "fmlookup m k = Some v \<Longrightarrow> fmupd k v m = m"
  by (rule fmap_ext) auto

lemma assign_at_idem: "fmlookup (data_m st) i = Some v \<Longrightarrow> assign_at st i v = st"
  by (simp add: assign_at_def fmupd_idem)

lemma put_cell_idem: "lookup_cell s pos = Some c \<Longrightarrow> put_cell s pos c = s"
  by (auto simp: lookup_cell_def put_cell_def assign_at_idem split: option.splits)

lemma Set_op_idem:
  assumes "IsValid env pos" and "lookup_cell s pos = Some c"
  shows "Set_op env None (cells_m s) pos (Some c) = Inr (cells_m s)"
  using assms
  by (auto simp: Set_op_def lookup_cell_def index_op_present assign_at_idem
      split: option.splits)

lemma materialize_present:
  assumes "fst (materialize env ref u) = None"
  shows "IsValid env ref \<and> lookup_cell (snd (materialize env ref u)) ref \<noteq> None"
proof -
  from assms have v: "IsValid env ref"
    by (auto simp: materialize_def GetCell_eq split: if_splits)
  show ?thesis
  proof (cases "lookup_cell u ref")
    case (Some c)
    with v show ?thesis by (simp add: materialize_def GetCell_eq)
  next
    case None
    then have g: "GetCell env u ref = Inr None" using v by (simp add: GetCell_eq)
    from assms g obtain cells' where
      st: "Set_op env None (cells_m u) ref (Some new_Cell) = Inr cells'"
      by (cases "Set_op env None (cells_m u) ref (Some new_Cell)")
        (simp_all add: materialize_def SetCell_placeholder)
    have m: "materialize env ref u = InvalidateCache env (u\<lparr>cells_m := cells'\<rparr>) ref"
      using g st by (simp add: materialize_def SetCell_placeholder)
    have "lookup_cell (u\<lparr>cells_m := cells'\<rparr>) ref = Some new_Cell"
      by (simp add: lookup_cell_Set_op [OF st])
    with InvalidateCache_frame(1) [of "u\<lparr>cells_m := cells'\<rparr>" env ref]
    have "lookup_cell (snd (InvalidateCache env (u\<lparr>cells_m := cells'\<rparr>) ref)) ref \<noteq> None"
      by (auto simp: caches_cleared_def dest!: spec [of _ ref]
          elim: option.rel_cases)
    with v m show ?thesis by simp
  qed
qed

lemma placeholders_present:
  "placeholders R u u' \<Longrightarrow> lookup_cell u q \<noteq> None \<Longrightarrow> lookup_cell u' q \<noteq> None"
  using placeholdersD [of R u u' q] by (cases "lookup_cell u q") auto

lemma for_each_materialize_present:
  assumes "for_each (materialize env) refs u = (None, u')"
  shows "\<forall>ref \<in> set refs. IsValid env ref \<and> lookup_cell u' ref \<noteq> None"
  using assms
proof (induction refs arbitrary: u)
  case Nil
  then show ?case by simp
next
  case (Cons ref refs)
  obtain r u1 where m: "materialize env ref u = (r, u1)" by (cases "materialize env ref u")
  with Cons.prems have r: "r = None" and f: "for_each (materialize env) refs u1 = (None, u')"
    by (cases r; simp)+
  from materialize_present [of env ref u] m r
  have "IsValid env ref" and "lookup_cell u1 ref \<noteq> None" by simp_all
  moreover have "placeholders (set refs) u1 u'"
    using for_each_materialize_frame [of refs u1 env] f by simp
  ultimately have "IsValid env ref \<and> lookup_cell u' ref \<noteq> None"
    by (auto dest: placeholders_present)
  with Cons.IH [OF f] show ?case by simp
qed

lemma for_each_materialize_idle:
  assumes "\<forall>ref \<in> set refs. IsValid env ref \<and> lookup_cell u ref \<noteq> None"
  shows "for_each (materialize env) refs u = (None, u)"
  using assms
  by (induction refs) (auto simp: materialize_def GetCell_eq split: option.splits)

lemma InvalidateCache_loop_visited:
  assumes "InvalidateCache_loop env s queue discovered = (None, s')"
    and "\<forall>d \<in> discovered. IsValid env d \<and> (\<forall>c. lookup_cell s d = Some c \<longrightarrow> cache_m c = None)"
    and "\<forall>d \<in> discovered. set (refs_to (refs_from_m s) d) \<subseteq> discovered \<union> set queue"
  shows "\<exists>D. discovered \<union> set queue \<subseteq> D \<and>
           (\<forall>d \<in> D. set (refs_to (refs_from_m s) d) \<subseteq> D) \<and>
           (\<forall>d \<in> D. IsValid env d \<and> (\<forall>c. lookup_cell s' d = Some c \<longrightarrow> cache_m c = None))"
  using assms
proof (induction env s queue discovered rule: InvalidateCache_loop.induct)
  case (1 env s queue discovered)
  show ?case
  proof (cases "queue = []")
    case True
    with "1.prems" show ?thesis by (intro exI [of _ discovered]) auto
  next
    case False
    let ?v = "last queue"
    have v: "IsValid env ?v"
    proof (rule ccontr)
      assume "\<not> IsValid env ?v"
      with False "1.prems"(1) show False by (simp add: InvalidateCache_loop_stop)
    qed
    let ?s1 = "case lookup_cell s ?v of
          None \<Rightarrow> s
        | Some c \<Rightarrow> put_cell s ?v (Cell_InvalidateCache c)"
    let ?q1 = "butlast queue @
          filter (\<lambda>r. r \<notin> insert ?v discovered) (refs_to (refs_from_m s) ?v)"
    let ?d1 = "insert ?v discovered"
    have g: "GetCellImpl env s ?v = Inr (lookup_cell s ?v)"
      using v by (simp add: GetCellImpl_eq)
    have step: "InvalidateCache_loop env ?s1 ?q1 ?d1 = (None, s')"
      using "1.prems"(1) InvalidateCache_loop_step [OF False v] by simp
    have refs: "refs_from_m ?s1 = refs_from_m s" by (simp split: option.splits)
    have q: "set queue = insert ?v (set (butlast queue))"
      using False by (metis append_butlast_last_id list.simps(15) rotate1.simps(2) set_rotate1)
    have i1: "\<forall>d \<in> ?d1. IsValid env d \<and>
        (\<forall>c. lookup_cell ?s1 d = Some c \<longrightarrow> cache_m c = None)"
      using "1.prems"(2) v
      by (auto simp: lookup_cell_put_cell Cell_InvalidateCache_def split: option.splits if_splits)
    have i2: "\<forall>d \<in> ?d1. set (refs_to (refs_from_m ?s1) d) \<subseteq> ?d1 \<union> set ?q1"
      unfolding refs using "1.prems"(3) q by auto
    from "1.IH" [OF False refl g step i1 i2] obtain D where
      D: "?d1 \<union> set ?q1 \<subseteq> D" "\<forall>d \<in> D. set (refs_to (refs_from_m ?s1) d) \<subseteq> D"
        "\<forall>d \<in> D. IsValid env d \<and> (\<forall>c. lookup_cell s' d = Some c \<longrightarrow> cache_m c = None)"
      by blast
    have "discovered \<union> set queue \<subseteq> D" using D(1) q by auto
    with D(2,3) show ?thesis unfolding refs by blast
  qed
qed

lemma InvalidateCache_loop_idle:
  assumes "set queue \<subseteq> D" and "\<forall>d \<in> D. set (refs_to (refs_from_m s) d) \<subseteq> D"
    and "\<forall>d \<in> D. IsValid env d \<and> (\<forall>c. lookup_cell s d = Some c \<longrightarrow> cache_m c = None)"
  shows "InvalidateCache_loop env s queue discovered = (None, s)"
  using assms
proof (induction env s queue discovered rule: InvalidateCache_loop.induct)
  case (1 env s queue discovered)
  show ?case
  proof (cases "queue = []")
    case True
    then show ?thesis by simp
  next
    case False
    let ?v = "last queue"
    have vD: "?v \<in> D" using False "1.prems"(1) by auto
    then have v: "IsValid env ?v" using "1.prems"(3) by simp
    have s1: "(case lookup_cell s ?v of
          None \<Rightarrow> s
        | Some c \<Rightarrow> put_cell s ?v (Cell_InvalidateCache c)) = s"
    proof (cases "lookup_cell s ?v")
      case None
      then show ?thesis by simp
    next
      case (Some c)
      with vD "1.prems"(3) have "cache_m c = None" by simp
      then have "Cell_InvalidateCache c = c" by (simp add: Cell_InvalidateCache_def)
      with Some show ?thesis by (simp add: put_cell_idem)
    qed
    have g: "GetCellImpl env s ?v = Inr (lookup_cell s ?v)"
      using v by (simp add: GetCellImpl_eq)
    have q1: "set (butlast queue @
          filter (\<lambda>r. r \<notin> insert ?v discovered) (refs_to (refs_from_m s) ?v)) \<subseteq> D"
      using "1.prems"(1,2) vD by (auto dest: in_set_butlastD)
    from "1.IH" [OF False refl g, unfolded s1, OF q1 "1.prems"(2,3)]
    show ?thesis unfolding InvalidateCache_loop_step [OF False v] s1 .
  qed
qed

text \<open>
  With \<^verbatim>\<open>NDEBUG\<close> defined, a \<^verbatim>\<open>SetCell\<close> that succeeded can be repeated: the second call
  succeeds and leaves the whole sheet as the first call left it.
\<close>

lemma SetCell_twice_NDEBUG:
  assumes nd: "NDEBUG env" and first: "SetCell env s pos t = (None, s1)"
  shows "SetCell env s1 pos t = (None, s1)"
proof -
  from first obtain cell old_cell u1 u2 cells' where
    c: "Cell_Set env new_Cell t = Inr cell" and gc: "GetCell env s pos = Inr old_cell"
    and f: "for_each (materialize env) (us_of_vector (Cell_GetReferencedCells env cell)) u1
           = (None, u2)"
    and st: "Set_op env None (cells_m u2) pos (Some cell) = Inr cells'"
    and i: "InvalidateCache env (u2\<lparr>cells_m := cells'\<rparr>) pos = (None, s1)"
    by (rule SetCell_success)
  let ?new = "us_of_vector (Cell_GetReferencedCells env cell)"
  let ?u3 = "u2\<lparr>cells_m := cells'\<rparr>"
  from gc have v: "IsValid env pos" by (simp add: GetCell_eq split: if_splits)
  from SetCell_effect [OF first] c have at_pos: "lookup_cell s1 pos = Some cell" by auto
  have cc: "caches_cleared ?u3 s1" using InvalidateCache_frame(1) [of ?u3 env pos] i by simp
  \<comment> \<open>every reference is valid and has a cell\<close>
  have present: "\<forall>ref \<in> set ?new. IsValid env ref \<and> lookup_cell s1 ref \<noteq> None"
  proof
    fix ref assume r: "ref \<in> set ?new"
    with for_each_materialize_present [OF f]
    have rv: "IsValid env ref" and "lookup_cell u2 ref \<noteq> None" by auto
    then have "lookup_cell ?u3 ref \<noteq> None" by (simp add: lookup_cell_Set_op [OF st])
    with caches_cleared_placeholders [OF cc, of "{}"] have "lookup_cell s1 ref \<noteq> None"
      by (rule placeholders_present)
    with rv show "IsValid env ref \<and> lookup_cell s1 ref \<noteq> None" ..
  qed
  \<comment> \<open>the second walk finds every cache already empty\<close>
  from InvalidateCache_loop_visited [of env ?u3 "[pos]" "{}" s1] i obtain D where
    D: "pos \<in> D" "\<forall>d \<in> D. set (refs_to (refs_from_m ?u3) d) \<subseteq> D"
      "\<forall>d \<in> D. IsValid env d \<and> (\<forall>c. lookup_cell s1 d = Some c \<longrightarrow> cache_m c = None)"
    by (auto simp: InvalidateCache_def)
  have "refs_from_m s1 = refs_from_m ?u3" using cc by (simp add: caches_cleared_def)
  with D have walk: "InvalidateCache env s1 pos = (None, s1)"
    unfolding InvalidateCache_def by (intro InvalidateCache_loop_idle [of _ D]) auto
  have "s1\<lparr>cells_m := cells_m s1\<rparr> = s1" by simp
  with nd c v at_pos present walk show ?thesis
    by (simp add: SetCell_unfold GetCell_eq UpdateRefs_same for_each_materialize_idle
        Set_op_idem)
qed

section \<open>The cycle check misses no cycle\<close>

text \<open>
  The edges the walk of \<^verbatim>\<open>IsCircularReference\<close> follows: from \<open>v\<close> to every member of
  \<^verbatim>\<open>refs_from_[v]\<close>, except to \<open>pos\<close> when \<open>v\<close> is in \<^verbatim>\<open>refs_del\<close>.
\<close>

definition walk_edges ::
  "(Position, Position list) fmap \<Rightarrow> Position \<Rightarrow> Position list \<Rightarrow> (Position \<times> Position) set" where
  "walk_edges g pos refs_del =
     {(v, n). n \<in> set (refs_to g v) \<and> \<not> (n = pos \<and> v \<in> set refs_del)}"

lemma IsCircularReference_loop_False:
  assumes "\<not> IsCircularReference_loop g pos refs_del queue discovered"
  shows "distinct queue \<and>
     (\<forall>x \<in> set queue. \<forall>w. (x, w) \<in> (walk_edges g pos refs_del)\<^sup>* \<longrightarrow> w \<notin> discovered) \<and>
     (\<forall>x \<in> set queue. \<forall>y \<in> set queue. x \<noteq> y \<longrightarrow>
        (\<forall>w. \<not> ((x, w) \<in> (walk_edges g pos refs_del)\<^sup>* \<and>
                 (y, w) \<in> (walk_edges g pos refs_del)\<^sup>*)))"
  using assms
proof (induction g pos refs_del queue discovered rule: IsCircularReference_loop.induct)
  case (1 g pos refs_del queue discovered)
  let ?E = "walk_edges g pos refs_del"
  show ?case
  proof (cases "queue = []")
    case True
    then show ?thesis by simp
  next
    case False
    let ?v = "last queue"
    let ?N = "filter (\<lambda>r. \<not> (r = pos \<and> ?v \<in> set refs_del)) (refs_to g ?v)"
    let ?q1 = "butlast queue"
    have q: "queue = ?q1 @ [?v]" using False by simp
    have vd: "?v \<notin> discovered"
      using "1.prems" False by (subst (asm) IsCircularReference_loop.simps) (auto simp: Let_def)
    then have rec: "\<not> IsCircularReference_loop g pos refs_del (?q1 @ ?N) (insert ?v discovered)"
      using "1.prems" False by (subst (asm) IsCircularReference_loop.simps) (auto simp: Let_def)
    from "1.IH" [OF False refl vd rec]
    have d: "distinct (?q1 @ ?N)"
      and a: "\<And>x w. x \<in> set (?q1 @ ?N) \<Longrightarrow> (x, w) \<in> ?E\<^sup>* \<Longrightarrow> w \<notin> insert ?v discovered"
      and b: "\<And>x y w. x \<in> set (?q1 @ ?N) \<Longrightarrow> y \<in> set (?q1 @ ?N) \<Longrightarrow> x \<noteq> y \<Longrightarrow>
                \<not> ((x, w) \<in> ?E\<^sup>* \<and> (y, w) \<in> ?E\<^sup>*)"
      by blast+
    have succ: "n \<in> set ?N" if "(?v, n) \<in> ?E" for n
      using that by (auto simp: walk_edges_def)
    have from_v: "w = ?v \<or> (\<exists>n \<in> set ?N. (n, w) \<in> ?E\<^sup>*)" if "(?v, w) \<in> ?E\<^sup>*" for w
      using that
    proof (cases rule: converse_rtranclE)
      case base
      then show ?thesis by simp
    next
      case (step n)
      with succ [of n] show ?thesis by blast
    qed
    have not_v: "?v \<notin> set ?q1"
    proof
      assume "?v \<in> set ?q1"
      then have "?v \<notin> insert ?v discovered" by (intro a [of ?v ?v]) auto
      then show False by simp
    qed
    have no_reach_v: "(x, ?v) \<notin> ?E\<^sup>*" if "x \<in> set ?q1" for x
      using a [of x ?v] that by auto
    have "distinct queue" using d not_v by (subst q) simp
    moreover have "w \<notin> discovered" if "x \<in> set queue" and "(x, w) \<in> ?E\<^sup>*" for x w
    proof -
      from that(1) q consider "x \<in> set ?q1" | "x = ?v" by (metis Un_iff set_append set_ConsD list.set(1) empty_iff)
      then show ?thesis
      proof cases
        case 1
        with a [of x w] that(2) show ?thesis by auto
      next
        case 2
        with from_v [of w] that(2) vd a show ?thesis by auto
      qed
    qed
    moreover have "\<not> ((x, w) \<in> ?E\<^sup>* \<and> (y, w) \<in> ?E\<^sup>*)"
      if "x \<in> set queue" and "y \<in> set queue" and "x \<noteq> y" for x y w
    proof -
      have cross: "\<not> ((x', w) \<in> ?E\<^sup>* \<and> (?v, w) \<in> ?E\<^sup>*)" if "x' \<in> set ?q1" for x'
      proof
        assume c: "(x', w) \<in> ?E\<^sup>* \<and> (?v, w) \<in> ?E\<^sup>*"
        with from_v [of w] consider "w = ?v" | n where "n \<in> set ?N" "(n, w) \<in> ?E\<^sup>*" by auto
        then show False
        proof cases
          case 1
          with c no_reach_v [OF that] show False by simp
        next
          case 2
          have "x' \<noteq> n" using d that 2(1) by auto
          with b [of x' n w] that 2 c show False by auto
        qed
      qed
      from that(1,2) q have "x \<in> set ?q1 \<or> x = ?v" and "y \<in> set ?q1 \<or> y = ?v"
        by (metis Un_iff set_append set_ConsD list.set(1) empty_iff)+
      with that(3) cross b [of x y w] show ?thesis by auto
    qed
    ultimately show ?thesis by blast
  qed
qed

text \<open>
  If \<open>ref_add\<close> refers to \<open>pos\<close>, directly or through other cells, along references that
  the edit does not delete, the walk reports a cycle.
\<close>

lemma IsCircularReference_loop_complete:
  assumes "(ref_add, pos) \<in> (refers g - {(p, d). p = pos \<and> d \<in> set refs_del})\<^sup>*"
  shows "IsCircularReference_loop g pos refs_del [pos, ref_add] {}"
proof (rule ccontr)
  assume n: "\<not> IsCircularReference_loop g pos refs_del [pos, ref_add] {}"
  have "(refers g - {(p, d). p = pos \<and> d \<in> set refs_del}) = (walk_edges g pos refs_del)\<inverse>"
    by (auto simp: walk_edges_def refers_iff has_ref_refs_to)
  with assms have r: "(pos, ref_add) \<in> (walk_edges g pos refs_del)\<^sup>*"
    by (simp add: rtrancl_converse)
  from IsCircularReference_loop_False [OF n]
  have "pos \<noteq> ref_add"
    and "\<And>w. pos \<noteq> ref_add \<Longrightarrow> \<not> ((pos, w) \<in> (walk_edges g pos refs_del)\<^sup>* \<and>
                 (ref_add, w) \<in> (walk_edges g pos refs_del)\<^sup>*)"
    by auto
  with r show False by blast
qed

end
